theory Spec2Isabelle
  imports Main "HOL-Library.Sublist"
begin

section \<open>Data model of package wsbeam\<close>

text \<open>
  Go objects that are shared by reference live in stores: a store is a list and a
  pointer is an index into it; allocation appends.  An index outside the store plays
  the role of Go's \<^verbatim>\<open>nil\<close>: dereferencing such a pear pointer panics, and a
  channel that does not exist is never ready (a send on a nil channel blocks, so a
  \<^verbatim>\<open>select\<close> with a \<^verbatim>\<open>default\<close> takes the default).
\<close>

type_synonym bytes = string
type_synonym pear_ptr = nat
type_synonym chan_ptr = nat
type_synonym msg_ptr = nat
type_synonym conn_ptr = nat
type_synonym Header = "string \<rightharpoonup> string list"
type_synonym log_call = "string \<times> string list"

definition deref :: "'a list \<Rightarrow> nat \<Rightarrow> 'a option" where
  "deref store i = (if i < length store then Some (store ! i) else None)"

text \<open>
  A channel \<^verbatim>\<open>chan *websocket.PreparedMessage\<close> made with capacity \<open>cap\<close>: its buffer
  in FIFO order (head = oldest); whether a goroutine is blocked receiving from it; and
  the value a sender has handed to that goroutine directly, which it holds but has not
  yet taken up (a hand-off does not go through the buffer).
\<close>

record chan =
  cap :: nat
  buf :: "msg_ptr list"
  recv_parked :: bool
  handed :: "msg_ptr option"

text \<open>\<^verbatim>\<open>type pear struct { ch chan<- *websocket.PreparedMessage; addr string }\<close>\<close>

record pear =
  ch :: chan_ptr
  addr :: string

text \<open>A websocket connection as the handler sees it: the messages written to it so far,
  whether \<^verbatim>\<open>Close\<close> was called, and whether the goroutine started by
  \<^verbatim>\<open>clientClosed\<close> has closed the channel \<^verbatim>\<open>done\<close> (a read from the client failed).\<close>

record conn =
  wrote :: "msg_ptr list"
  closed :: bool
  done_closed :: bool

text \<open>The logging function of a Beam is a nilable function value; a non-nil one is
  identified by a name.\<close>

datatype logfn = LogFn string

text \<open>\<^verbatim>\<open>type Beam struct\<close>: \<open>lock\<close> is \<open>True\<close> while the mutex is held.\<close>

record 'u Beam =
  pears :: "pear_ptr \<rightharpoonup> bool"
  lock :: bool
  buffer :: int
  upgrader :: 'u
  headers :: Header
  logger :: "logfn option"

text \<open>
  The state of the program: the Beam, the stores of pears, channels, prepared messages
  and connections, the calls made to the logging function (format, arguments) and the
  error replies written to response writers (response writer, text, status code), by
  \<^verbatim>\<open>http.Error\<close> in the handler and by \<^verbatim>\<open>Upgrade\<close>, both in order.
\<close>

record ('u, 'pm) world =
  beam :: "'u Beam"
  heap :: "pear list"
  chans :: "chan list"
  msgs :: "'pm list"
  conns :: "conn list"
  log_calls :: "log_call list"
  http_errors :: "(nat \<times> string \<times> int) list"

text \<open>How a call ends, and the state it leaves: it returns a value, it panics (the
  panic propagates to the caller after the deferred calls have run), or it blocks
  (on a mutex that is held).\<close>

datatype ('a, 's) outcome = Returns 'a 's | Panics string 's | Blocks 's

fun state_of :: "('a, 's) outcome \<Rightarrow> 's" where
  "state_of (Returns x s) = s"
| "state_of (Panics e s) = s"
| "state_of (Blocks s) = s"

text \<open>The two errors \<^verbatim>\<open>Send\<close> builds with \<^verbatim>\<open>fmt.Errorf\<close>, with their arguments.\<close>

datatype 'd send_error =
    FailedMarshaling 'd string
  | FailedPreparing bytes string

section \<open>Construction\<close>

definition New :: "'u \<Rightarrow> ('u Beam \<Rightarrow> 'u Beam) list \<Rightarrow> 'u Beam" where
  "New zero_upgrader ops =
     fold (\<lambda>opt b. opt b) ops
       \<lparr>pears = Map.empty, lock = False, buffer = 100, upgrader = zero_upgrader,
        headers = Map.empty, logger = Some (LogFn ''log.Printf'')\<rparr>"

definition OptBuffer :: "int \<Rightarrow> 'u Beam \<Rightarrow> 'u Beam" where
  "OptBuffer n b = b\<lparr>buffer := n\<rparr>"

definition OptUpgrader :: "'u \<Rightarrow> 'u Beam \<Rightarrow> 'u Beam" where
  "OptUpgrader u b = b\<lparr>upgrader := u\<rparr>"

definition OptHeaders :: "Header \<Rightarrow> 'u Beam \<Rightarrow> 'u Beam" where
  "OptHeaders h b = b\<lparr>headers := h\<rparr>"

definition OptLogger :: "logfn option \<Rightarrow> 'u Beam \<Rightarrow> 'u Beam" where
  "OptLogger l b = b\<lparr>logger := l\<rparr>"

section \<open>Channels\<close>

text \<open>
  A non-blocking send (\<^verbatim>\<open>select { case c <- m: default: }\<close>) proceeds when a receiver
  is blocked on the channel or the buffer has room.  With a receiver blocked, the value
  is handed to it and the receiver is woken up: the buffer stays as it is, so the
  hand-off takes no slot of it.  Otherwise the value goes to the end of the buffer.
  A receiver blocks only on a channel with nothing to receive; in a state where the
  flag is set although something is left to receive (no execution reaches one) the
  value goes to the end of the buffer, behind what is left.
\<close>

definition chan_ready :: "chan \<Rightarrow> bool" where
  "chan_ready c = (recv_parked c \<or> length (buf c) < cap c)"

definition chan_push :: "msg_ptr \<Rightarrow> chan \<Rightarrow> chan" where
  "chan_push m c =
     (if recv_parked c \<and> handed c = None \<and> buf c = []
      then c\<lparr>recv_parked := False, handed := Some m\<rparr>
      else c\<lparr>buf := buf c @ [m], recv_parked := False\<rparr>)"

text \<open>What a channel holds for its receiver, in the order the receiver gets it: the
  value handed over, then the buffer.\<close>

definition pending :: "chan \<Rightarrow> msg_ptr list" where
  "pending c = (case handed c of None \<Rightarrow> [] | Some v \<Rightarrow> [v]) @ buf c"

section \<open>Registry\<close>

text \<open>\<^verbatim>\<open>sync.Mutex\<close>: \<^verbatim>\<open>Lock\<close> on a held mutex waits; \<^verbatim>\<open>Unlock\<close> releases it.\<close>

definition Lock :: "('u, 'pm) world \<Rightarrow> (unit, ('u, 'pm) world) outcome" where
  "Lock w = (if lock (beam w) then Blocks w else Returns () (w\<lparr>beam := (beam w)\<lparr>lock := True\<rparr>\<rparr>))"

definition Unlock :: "('u, 'pm) world \<Rightarrow> ('u, 'pm) world" where
  "Unlock w = w\<lparr>beam := (beam w)\<lparr>lock := False\<rparr>\<rparr>"

text \<open>\<^verbatim>\<open>func (c *Beam) add(p *pear)\<close>\<close>

definition add :: "pear_ptr \<Rightarrow> ('u, 'pm) world \<Rightarrow> (unit, ('u, 'pm) world) outcome" where
  "add p w =
     (case Lock w of
        Returns u w1 \<Rightarrow>
          Returns () (Unlock (w1\<lparr>beam := (beam w1)\<lparr>pears := (pears (beam w1))(p \<mapsto> True)\<rparr>\<rparr>))
      | Panics e w1 \<Rightarrow> Panics e w1
      | Blocks w1 \<Rightarrow> Blocks w1)"

text \<open>\<^verbatim>\<open>func (c *Beam) remove(p *pear)\<close>: \<^verbatim>\<open>delete\<close> of a key that is not in the map
  does nothing.\<close>

definition remove_pear :: "pear_ptr \<Rightarrow> ('u, 'pm) world \<Rightarrow> (unit, ('u, 'pm) world) outcome" where
  "remove_pear p w =
     (case Lock w of
        Returns u w1 \<Rightarrow>
          Returns () (Unlock (w1\<lparr>beam := (beam w1)\<lparr>pears := (pears (beam w1))(p := None)\<rparr>\<rparr>))
      | Panics e w1 \<Rightarrow> Panics e w1
      | Blocks w1 \<Rightarrow> Blocks w1)"

section \<open>Logging\<close>

text \<open>\<^verbatim>\<open>b.logger(format, args...)\<close>: calling a nil function value panics.\<close>

definition call_logger ::
  "string \<Rightarrow> string list \<Rightarrow> ('u, 'pm) world \<Rightarrow> (unit, ('u, 'pm) world) outcome"
where
  "call_logger format args w =
     (case logger (beam w) of
        None \<Rightarrow> Panics ''invalid memory address or nil pointer dereference'' w
      | Some f \<Rightarrow> Returns () (w\<lparr>log_calls := log_calls w @ [(format, args)]\<rparr>))"

text \<open>\<^verbatim>\<open>func (b *Beam) log(p *pear, format string, args ...interface{})\<close>\<close>

definition log ::
  "pear_ptr \<Rightarrow> string \<Rightarrow> string list \<Rightarrow> ('u, 'pm) world \<Rightarrow> (unit, ('u, 'pm) world) outcome"
where
  "log p format args w =
     (if logger (beam w) = None then Returns () w
      else (case deref (heap w) p of
              None \<Rightarrow> Panics ''invalid memory address or nil pointer dereference'' w
            | Some pr \<Rightarrow> call_logger (''['' @ addr pr @ ''] '' @ format) args w))"

section \<open>Send\<close>

text \<open>\<^verbatim>\<open>strings.Join(elems, sep)\<close>\<close>

fun Join :: "string list \<Rightarrow> string \<Rightarrow> string" where
  "Join [] sep = []"
| "Join [x] sep = x"
| "Join (x # y # ys) sep = x @ sep @ Join (y # ys) sep"

text \<open>
  One iteration of the loop of \<^verbatim>\<open>Send\<close> for the pear \<open>p\<close>: push \<open>msg\<close> on its channel
  if the channel is ready, else append its address to \<open>failed\<close>.  The value returned
  is the list \<open>failed\<close>.
\<close>

definition send_one ::
  "msg_ptr \<Rightarrow> pear_ptr \<Rightarrow> string list \<Rightarrow> ('u, 'pm) world \<Rightarrow> (string list, ('u, 'pm) world) outcome"
where
  "send_one msg p failed w =
     (case deref (heap w) p of
        None \<Rightarrow> Panics ''invalid memory address or nil pointer dereference'' w
      | Some pr \<Rightarrow>
          (case deref (chans w) (ch pr) of
             None \<Rightarrow> Returns (failed @ [addr pr]) w
           | Some c \<Rightarrow>
               if chan_ready c
               then Returns failed (w\<lparr>chans := (chans w)[ch pr := chan_push msg c]\<rparr>)
               else Returns (failed @ [addr pr]) w))"

text \<open>
  \<^verbatim>\<open>for p := range b.pears\<close>, the keys visited in the order \<open>ks\<close>.  Go leaves the
  order open; \<open>range_order\<close> says that \<open>ks\<close> lists every key once.
\<close>

fun send_loop ::
  "msg_ptr \<Rightarrow> pear_ptr list \<Rightarrow> string list \<Rightarrow> ('u, 'pm) world \<Rightarrow>
   (string list, ('u, 'pm) world) outcome"
where
  "send_loop msg [] failed w = Returns failed w"
| "send_loop msg (p # ps) failed w =
     (case send_one msg p failed w of
        Returns failed' w' \<Rightarrow> send_loop msg ps failed' w'
      | Panics e w' \<Rightarrow> Panics e w'
      | Blocks w' \<Rightarrow> Blocks w')"

definition range_order :: "pear_ptr list \<Rightarrow> ('u, 'pm) world \<Rightarrow> bool" where
  "range_order ks w = (distinct ks \<and> set ks = dom (pears (beam w)))"

text \<open>
  \<^verbatim>\<open>func (b *Beam) Send(data interface{}) error\<close>.  \<open>marshal\<close> stands for
  \<^verbatim>\<open>json.Marshal\<close> and \<open>prepare\<close> for \<^verbatim>\<open>websocket.NewPreparedMessage\<close>; a prepared
  message is a new object in the store \<open>msgs\<close>.  \<^verbatim>\<open>Unlock\<close> is deferred: it runs on
  return and on a panic.
\<close>

definition Send ::
  "('d \<Rightarrow> string + bytes) \<Rightarrow> (int \<Rightarrow> bytes \<Rightarrow> string + 'pm) \<Rightarrow> pear_ptr list \<Rightarrow> 'd \<Rightarrow>
   ('u, 'pm) world \<Rightarrow> ('d send_error option, ('u, 'pm) world) outcome"
where
  "Send marshal prepare ks data w =
     (case marshal data of
        Inl err \<Rightarrow> Returns (Some (FailedMarshaling data err)) w
      | Inr bs \<Rightarrow>
          (case prepare 1 bs of
             Inl err \<Rightarrow> Returns (Some (FailedPreparing bs err)) w
           | Inr pm \<Rightarrow>
               (let msg = length (msgs w);
                    w1 = w\<lparr>msgs := msgs w @ [pm]\<rparr>
                in case Lock w1 of
                     Blocks w2 \<Rightarrow> Blocks w2
                   | Panics e w2 \<Rightarrow> Panics e w2
                   | Returns u w2 \<Rightarrow>
                       (case send_loop msg ks [] w2 of
                          Panics e w3 \<Rightarrow> Panics e (Unlock w3)
                        | Blocks w3 \<Rightarrow> Blocks w3
                        | Returns failed w3 \<Rightarrow>
                            if 0 < length failed
                            then (case call_logger ''Discarded buffer overflow message for %s''
                                         [Join failed '',''] w3 of
                                    Returns u w4 \<Rightarrow> Returns None (Unlock w4)
                                  | Panics e w4 \<Rightarrow> Panics e (Unlock w4)
                                  | Blocks w4 \<Rightarrow> Blocks w4)
                            else Returns None (Unlock w3)))))"

section \<open>ServeHTTP\<close>

text \<open>\<^verbatim>\<open>*http.Request\<close>, as far as the handler reads it.\<close>

record Request =
  RemoteAddr :: string

text \<open>
  \<^verbatim>\<open>make(chan *websocket.PreparedMessage, n)\<close>: the runtime panics when the size is
  negative or beyond what it can allocate.  \<open>lim\<close> is the largest size the runtime
  accepts for a channel of pointers; it depends on the platform.
\<close>

definition make_chan :: "int \<Rightarrow> int \<Rightarrow> ('u, 'pm) world \<Rightarrow> (chan_ptr, ('u, 'pm) world) outcome" where
  "make_chan lim n w =
     (if n < 0 \<or> lim < n then Panics ''makechan: size out of range'' w
      else Returns (length (chans w))
             (w\<lparr>chans := chans w @ [\<lparr>cap = nat n, buf = [], recv_parked = False, handed = None\<rparr>]\<rparr>))"

text \<open>\<^verbatim>\<open>http.Error(w, text, code)\<close>\<close>

definition http_Error :: "nat \<Rightarrow> string \<Rightarrow> int \<Rightarrow> ('u, 'pm) world \<Rightarrow> ('u, 'pm) world" where
  "http_Error rw text code w = w\<lparr>http_errors := http_errors w @ [(rw, text, code)]\<rparr>"

text \<open>
  Lines 85 to 93 of \<^verbatim>\<open>ServeHTTP\<close>: make the channel, allocate the pear, log, and
  \<^verbatim>\<open>b.add(p)\<close>.  It returns the pear and the channel; the state returned is the one
  in which \<^verbatim>\<open>Upgrade\<close> is called.
\<close>

definition ServeHTTP_register ::
  "int \<Rightarrow> Request \<Rightarrow> ('u, 'pm) world \<Rightarrow> (pear_ptr \<times> chan_ptr, ('u, 'pm) world) outcome"
where
  "ServeHTTP_register lim r w =
     (case make_chan lim (buffer (beam w)) w of
        Panics e w1 \<Rightarrow> Panics e w1
      | Blocks w1 \<Rightarrow> Blocks w1
      | Returns c w1 \<Rightarrow>
          (let p = length (heap w1);
               w2 = w1\<lparr>heap := heap w1 @ [\<lparr>ch = c, addr = RemoteAddr r\<rparr>]\<rparr>
           in case log p ''New connection'' [] w2 of
                Panics e w3 \<Rightarrow> Panics e w3
              | Blocks w3 \<Rightarrow> Blocks w3
              | Returns u w3 \<Rightarrow>
                  (case add p w3 of
                     Panics e w4 \<Rightarrow> Panics e w4
                   | Blocks w4 \<Rightarrow> Blocks w4
                   | Returns u w4 \<Rightarrow> Returns (p, c) w4)))"



text \<open>
  What \<^verbatim>\<open>b.upgrader.Upgrade(w, r, b.headers)\<close> does besides returning: the error
  replies it writes to the response writer itself (text and status code), in order.
  When it refuses a request it answers the client before it returns its error.
\<close>

definition Upgrade_replies :: "nat \<Rightarrow> (string \<times> int) list \<Rightarrow> ('u, 'pm) world \<Rightarrow> ('u, 'pm) world" where
  "Upgrade_replies rw replies w = fold (\<lambda>reply. http_Error rw (fst reply) (snd reply)) replies w"


section \<open>Reading the state\<close>

text \<open>The channel of a pear, its queue, whether a push on it would proceed, and the
  address of a pear, read through the stores.\<close>

definition pear_chan :: "('u, 'pm) world \<Rightarrow> pear_ptr \<Rightarrow> chan option" where
  "pear_chan w p = (case deref (heap w) p of None \<Rightarrow> None | Some pr \<Rightarrow> deref (chans w) (ch pr))"

definition queue_of :: "('u, 'pm) world \<Rightarrow> pear_ptr \<Rightarrow> msg_ptr list" where
  "queue_of w p = (case pear_chan w p of None \<Rightarrow> [] | Some c \<Rightarrow> pending c)"

definition pear_ready :: "('u, 'pm) world \<Rightarrow> pear_ptr \<Rightarrow> bool" where
  "pear_ready w p = (case pear_chan w p of None \<Rightarrow> False | Some c \<Rightarrow> chan_ready c)"

definition addr_of :: "('u, 'pm) world \<Rightarrow> pear_ptr \<Rightarrow> string" where
  "addr_of w p = (case deref (heap w) p of None \<Rightarrow> [] | Some pr \<Rightarrow> addr pr)"

definition chan_of :: "('u, 'pm) world \<Rightarrow> pear_ptr \<Rightarrow> chan_ptr" where
  "chan_of w p = ch (heap w ! p)"

text \<open>
  Well-formedness of a set of pear pointers: each pear and its channel exist, and no two
  of the pears share a channel.  \<^verbatim>\<open>ServeHTTP\<close> is the only place that creates pears,
  each with a channel of its own.
\<close>

definition wf_pears :: "pear_ptr set \<Rightarrow> ('u, 'pm) world \<Rightarrow> bool" where
  "wf_pears P w =
     ((\<forall>p\<in>P. p < length (heap w) \<and> chan_of w p < length (chans w)) \<and> inj_on (chan_of w) P)"

definition wf_world :: "('u, 'pm) world \<Rightarrow> bool" where
  "wf_world w = wf_pears (dom (pears (beam w))) w"

section \<open>The loop of Send\<close>

lemma send_one_frame:
  "send_one msg p failed w = Returns failed' w' \<Longrightarrow>
     beam w' = beam w \<and> heap w' = heap w \<and> msgs w' = msgs w \<and> conns w' = conns w \<and>
     log_calls w' = log_calls w \<and> http_errors w' = http_errors w \<and> length (chans w') = length (chans w)"
  by (auto simp: send_one_def split: option.splits if_splits)

lemma send_one_ok:
  assumes "p < length (heap w)" "chan_of w p < length (chans w)"
  shows "send_one msg p failed w =
     (if chan_ready (chans w ! chan_of w p)
      then Returns failed (w\<lparr>chans := (chans w)[chan_of w p := chan_push msg (chans w ! chan_of w p)]\<rparr>)
      else Returns (failed @ [addr (heap w ! p)]) w)"
  using assms by (simp add: send_one_def deref_def chan_of_def)

lemma send_loop_ok:
  assumes "\<forall>p\<in>set ks. p < length (heap w) \<and> chan_of w p < length (chans w)"
      and "distinct (map (chan_of w) ks)"
  shows "\<exists>w'. send_loop msg ks failed w =
           Returns (failed @ map (\<lambda>p. addr (heap w ! p)) (filter (\<lambda>p. \<not> chan_ready (chans w ! chan_of w p)) ks)) w'
         \<and> beam w' = beam w \<and> heap w' = heap w \<and> msgs w' = msgs w \<and> conns w' = conns w
         \<and> log_calls w' = log_calls w \<and> http_errors w' = http_errors w
         \<and> length (chans w') = length (chans w)
         \<and> (\<forall>c < length (chans w). chans w' ! c =
               (if c \<in> chan_of w ` set ks \<and> chan_ready (chans w ! c) then chan_push msg (chans w ! c) else chans w ! c))"
  using assms
proof (induction ks arbitrary: failed w)
  case Nil
  then show ?case by simp
next
  case (Cons p ps)
  let ?c = "chan_of w p"
  have p: "p < length (heap w)" "?c < length (chans w)" using Cons.prems by auto
  have notin: "?c \<notin> chan_of w ` set ps" using Cons.prems(2) by auto
  show ?case
  proof (cases "chan_ready (chans w ! ?c)")
    case True
    define w1 where "w1 = w\<lparr>chans := (chans w)[?c := chan_push msg (chans w ! ?c)]\<rparr>"
    have s1: "send_one msg p failed w = Returns failed w1"
      using send_one_ok[OF p] True by (simp add: w1_def)
    have h1: "heap w1 = heap w" "beam w1 = beam w" "msgs w1 = msgs w" "conns w1 = conns w"
      "log_calls w1 = log_calls w" "http_errors w1 = http_errors w"
      "length (chans w1) = length (chans w)"
      by (simp_all add: w1_def)
    have co: "chan_of w1 = chan_of w" by (simp add: chan_of_def fun_eq_iff h1)
    have c1: "\<And>c. c < length (chans w) \<Longrightarrow>
                chans w1 ! c = (if c = ?c then chan_push msg (chans w ! ?c) else chans w ! c)"
      by (simp add: w1_def)
    have pre1: "\<forall>q\<in>set ps. q < length (heap w1) \<and> chan_of w1 q < length (chans w1)"
      using Cons.prems(1) by (simp add: co h1)
    have pre2: "distinct (map (chan_of w1) ps)" using Cons.prems(2) by (simp add: co)
    from Cons.IH[OF pre1 pre2, of failed] obtain w' where
      w': "send_loop msg ps failed w1 =
           Returns (failed @ map (\<lambda>p. addr (heap w1 ! p)) (filter (\<lambda>p. \<not> chan_ready (chans w1 ! chan_of w1 p)) ps)) w'"
      and fr: "beam w' = beam w1" "heap w' = heap w1" "msgs w' = msgs w1" "conns w' = conns w1"
         "log_calls w' = log_calls w1" "http_errors w' = http_errors w1"
         "length (chans w') = length (chans w1)"
      and ch: "\<forall>c < length (chans w1). chans w' ! c =
               (if c \<in> chan_of w1 ` set ps \<and> chan_ready (chans w1 ! c) then chan_push msg (chans w1 ! c) else chans w1 ! c)"
      by blast
    have same: "chans w1 ! chan_of w q = chans w ! chan_of w q" if "q \<in> set ps" for q
    proof -
      from that notin have "chan_of w q \<noteq> chan_of w p" by (metis imageI)
      moreover have "chan_of w q < length (chans w)" using Cons.prems(1) that by simp
      ultimately show ?thesis by (simp add: c1)
    qed
    have filt: "filter (\<lambda>p. \<not> chan_ready (chans w1 ! chan_of w1 p)) ps
              = filter (\<lambda>p. \<not> chan_ready (chans w ! chan_of w p)) ps"
      by (rule filter_cong[OF refl]) (simp add: co same)
    have res: "send_loop msg (p # ps) failed w =
        Returns (failed @ map (\<lambda>p. addr (heap w ! p)) (filter (\<lambda>p. \<not> chan_ready (chans w ! chan_of w p)) (p # ps))) w'"
      using s1 w' True by (simp add: filt h1)
    have chs: "\<forall>c < length (chans w). chans w' ! c =
               (if c \<in> chan_of w ` set (p # ps) \<and> chan_ready (chans w ! c) then chan_push msg (chans w ! c) else chans w ! c)"
    proof (intro allI impI)
      fix c assume c: "c < length (chans w)"
      show "chans w' ! c = (if c \<in> chan_of w ` set (p # ps) \<and> chan_ready (chans w ! c) then chan_push msg (chans w ! c) else chans w ! c)"
      proof (cases "c = ?c")
        case True
        then show ?thesis using ch c notin \<open>chan_ready (chans w ! ?c)\<close> by (simp add: co h1 c1)
      next
        case False
        then show ?thesis using ch c by (simp add: co h1 c1)
      qed
    qed
    show ?thesis using res fr chs by (auto simp: h1)
  next
    case False
    have s1: "send_one msg p failed w = Returns (failed @ [addr (heap w ! p)]) w"
      using send_one_ok[OF p] False by simp
    have pre1: "\<forall>q\<in>set ps. q < length (heap w) \<and> chan_of w q < length (chans w)"
      using Cons.prems(1) by simp
    have pre2: "distinct (map (chan_of w) ps)" using Cons.prems(2) by simp
    from Cons.IH[OF pre1 pre2, of "failed @ [addr (heap w ! p)]"] obtain w' where
      w': "send_loop msg ps (failed @ [addr (heap w ! p)]) w =
           Returns ((failed @ [addr (heap w ! p)]) @ map (\<lambda>p. addr (heap w ! p)) (filter (\<lambda>p. \<not> chan_ready (chans w ! chan_of w p)) ps)) w'"
      and fr: "beam w' = beam w" "heap w' = heap w" "msgs w' = msgs w" "conns w' = conns w"
         "log_calls w' = log_calls w" "http_errors w' = http_errors w"
         "length (chans w') = length (chans w)"
      and ch: "\<forall>c < length (chans w). chans w' ! c =
               (if c \<in> chan_of w ` set ps \<and> chan_ready (chans w ! c) then chan_push msg (chans w ! c) else chans w ! c)"
      by blast
    have res: "send_loop msg (p # ps) failed w =
        Returns (failed @ map (\<lambda>p. addr (heap w ! p)) (filter (\<lambda>p. \<not> chan_ready (chans w ! chan_of w p)) (p # ps))) w'"
      using s1 w' False by simp
    have chs: "\<forall>c < length (chans w). chans w' ! c =
               (if c \<in> chan_of w ` set (p # ps) \<and> chan_ready (chans w ! c) then chan_push msg (chans w ! c) else chans w ! c)"
      using ch False by auto
    show ?thesis using res fr chs by auto
  qed
qed

lemma cap_chan_push: "cap (chan_push m c) = cap c"
  by (simp add: chan_push_def)

lemma map_cap_update:
  "c < length cs \<Longrightarrow> map cap (cs[c := chan_push m (cs ! c)]) = map cap cs"
  by (rule nth_equalityI) (auto simp: nth_list_update cap_chan_push)

lemma pending_chan_push: "pending (chan_push m c) = pending c @ [m]"
  by (simp add: pending_def chan_push_def split: option.splits)

lemma send_one_state_frame:
  "beam (state_of (send_one msg p failed w)) = beam w \<and>
   heap (state_of (send_one msg p failed w)) = heap w \<and>
   msgs (state_of (send_one msg p failed w)) = msgs w \<and>
   conns (state_of (send_one msg p failed w)) = conns w \<and>
   log_calls (state_of (send_one msg p failed w)) = log_calls w \<and>
   http_errors (state_of (send_one msg p failed w)) = http_errors w \<and>
   map cap (chans (state_of (send_one msg p failed w))) = map cap (chans w)"
  by (simp add: send_one_def deref_def map_cap_update split: option.splits)

lemma send_loop_state_frame:
  "beam (state_of (send_loop msg ks failed w)) = beam w \<and>
   heap (state_of (send_loop msg ks failed w)) = heap w \<and>
   msgs (state_of (send_loop msg ks failed w)) = msgs w \<and>
   conns (state_of (send_loop msg ks failed w)) = conns w \<and>
   log_calls (state_of (send_loop msg ks failed w)) = log_calls w \<and>
   http_errors (state_of (send_loop msg ks failed w)) = http_errors w \<and>
   map cap (chans (state_of (send_loop msg ks failed w))) = map cap (chans w)"
proof (induction ks arbitrary: failed w)
  case Nil
  show ?case by simp
next
  case (Cons p ps)
  show ?case
  proof (cases "send_one msg p failed w")
    case (Returns f' w')
    with send_one_state_frame[of msg p failed w] Cons.IH[of f' w'] show ?thesis by simp
  next
    case (Panics e w')
    with send_one_state_frame[of msg p failed w] show ?thesis by simp
  next
    case (Blocks w')
    with send_one_state_frame[of msg p failed w] show ?thesis by simp
  qed
qed

lemma send_one_not_Blocks: "send_one msg p failed w \<noteq> Blocks w'"
  by (simp add: send_one_def split: option.splits)

lemma send_loop_not_Blocks: "send_loop msg ks failed w \<noteq> Blocks w'"
proof (induction ks arbitrary: failed w)
  case Nil
  show ?case by simp
next
  case (Cons p ps)
  then show ?case
    by (cases "send_one msg p failed w") (simp_all add: send_one_not_Blocks)
qed

lemma Unlock_Lock_beam:
  "\<not> lock (beam w) \<Longrightarrow> Lock w = Returns () w1 \<Longrightarrow> beam w2 = beam w1 \<Longrightarrow> beam (Unlock w2) = beam w"
  by (auto simp: Lock_def Unlock_def split: if_splits)

lemma call_logger_frame:
  "beam (state_of (call_logger f a w)) = beam w \<and> heap (state_of (call_logger f a w)) = heap w \<and>
   chans (state_of (call_logger f a w)) = chans w \<and> msgs (state_of (call_logger f a w)) = msgs w \<and>
   conns (state_of (call_logger f a w)) = conns w \<and>
   http_errors (state_of (call_logger f a w)) = http_errors w"
  by (simp add: call_logger_def split: option.splits)

lemma Send_state_frame:
  "beam (state_of (Send marshal prepare ks data w)) = beam w \<and>
   heap (state_of (Send marshal prepare ks data w)) = heap w \<and>
   conns (state_of (Send marshal prepare ks data w)) = conns w \<and>
   map cap (chans (state_of (Send marshal prepare ks data w))) = map cap (chans w)"
proof (cases "marshal data")
  case (Inl e)
  then show ?thesis by (simp add: Send_def)
next
  case (Inr bs)
  note m = this
  show ?thesis
  proof (cases "prepare 1 bs")
    case (Inl e)
    with m show ?thesis by (simp add: Send_def)
  next
    case (Inr pm)
    note p = this
    define w1 where "w1 = w\<lparr>msgs := msgs w @ [pm]\<rparr>"
    have w1: "beam w1 = beam w" "heap w1 = heap w" "conns w1 = conns w" "chans w1 = chans w"
      by (simp_all add: w1_def)
    show ?thesis
    proof (cases "lock (beam w)")
      case True
      then have "Send marshal prepare ks data w = Blocks w1"
        using m p by (simp add: Send_def Lock_def w1_def)
      then show ?thesis by (simp add: w1)
    next
      case False
      define w2 where "w2 = w1\<lparr>beam := (beam w1)\<lparr>lock := True\<rparr>\<rparr>"
      have L: "Lock w1 = Returns () w2" using False by (simp add: Lock_def w2_def w1)
      have w2: "heap w2 = heap w" "conns w2 = conns w" "chans w2 = chans w"
        by (simp_all add: w2_def w1)
      have un: "\<And>x. beam x = beam w2 \<Longrightarrow> beam (Unlock x) = beam w"
        using False by (simp add: Unlock_def w2_def w1)
      have unf: "\<And>x. heap (Unlock x) = heap x \<and> conns (Unlock x) = conns x \<and> chans (Unlock x) = chans x"
        by (simp add: Unlock_def)
      note fr = send_loop_state_frame[of "length (msgs w)" ks "[]" w2]
      have S: "Send marshal prepare ks data w =
          (case send_loop (length (msgs w)) ks [] w2 of
             Panics e w3 \<Rightarrow> Panics e (Unlock w3)
           | Blocks w3 \<Rightarrow> Blocks w3
           | Returns failed w3 \<Rightarrow>
               if 0 < length failed
               then (case call_logger ''Discarded buffer overflow message for %s'' [Join failed '',''] w3 of
                       Returns u w4 \<Rightarrow> Returns None (Unlock w4)
                     | Panics e w4 \<Rightarrow> Panics e (Unlock w4)
                     | Blocks w4 \<Rightarrow> Blocks w4)
               else Returns None (Unlock w3))"
        using m p L by (simp add: Send_def Let_def w1_def)
      show ?thesis
      proof (cases "send_loop (length (msgs w)) ks [] w2")
        case (Returns failed w3)
        note r = this
        have b3: "beam w3 = beam w2" "heap w3 = heap w" "conns w3 = conns w"
          "map cap (chans w3) = map cap (chans w)"
          using fr r by (simp_all add: w2)
        show ?thesis
        proof (cases "0 < length failed")
          case True
          note cf = call_logger_frame[of "''Discarded buffer overflow message for %s''" "[Join failed '','']" w3]
          show ?thesis
          proof (cases "call_logger ''Discarded buffer overflow message for %s'' [Join failed '',''] w3")
            case (Returns u w4)
            with cf b3 have b4: "beam w4 = beam w2" "heap w4 = heap w" "conns w4 = conns w"
              "map cap (chans w4) = map cap (chans w)" by simp_all
            have "Send marshal prepare ks data w = Returns None (Unlock w4)"
              using S r True Returns by simp
            then show ?thesis using un[OF b4(1)] b4 by (simp add: unf)
          next
            case (Panics e w4)
            with cf b3 have b4: "beam w4 = beam w2" "heap w4 = heap w" "conns w4 = conns w"
              "map cap (chans w4) = map cap (chans w)" by simp_all
            have "Send marshal prepare ks data w = Panics e (Unlock w4)"
              using S r True Panics by simp
            then show ?thesis using un[OF b4(1)] b4 by (simp add: unf)
          next
            case (Blocks w4)
            then show ?thesis by (simp add: call_logger_def split: option.splits)
          qed
        next
          case False
          then have "Send marshal prepare ks data w = Returns None (Unlock w3)"
            using S r by simp
          then show ?thesis using un[OF b3(1)] b3 by (simp add: unf)
        qed
      next
        case (Panics e w3)
        then have b3: "beam w3 = beam w2" "heap w3 = heap w" "conns w3 = conns w"
          "map cap (chans w3) = map cap (chans w)"
          using fr by (simp_all add: w2)
        have "Send marshal prepare ks data w = Panics e (Unlock w3)"
          using S Panics by simp
        then show ?thesis using un[OF b3(1)] b3 by (simp add: unf)
      next
        case (Blocks w3)
        then show ?thesis by (simp add: send_loop_not_Blocks)
      qed
    qed
  qed
qed

lemma Send_effect:
  assumes m: "marshal data = Inr bs" and p: "prepare 1 bs = Inr pm"
      and l: "\<not> lock (beam w)"
      and V: "\<forall>p\<in>set ks. p < length (heap w) \<and> chan_of w p < length (chans w)"
      and D: "distinct (map (chan_of w) ks)"
  defines "failed \<equiv> map (\<lambda>p. addr (heap w ! p)) (filter (\<lambda>p. \<not> chan_ready (chans w ! chan_of w p)) ks)"
  shows "\<exists>w'. Send marshal prepare ks data w =
            (if failed = [] then Returns None w'
             else case logger (beam w) of
                    None \<Rightarrow> Panics ''invalid memory address or nil pointer dereference'' w'
                  | Some f \<Rightarrow> Returns None w')
          \<and> beam w' = beam w \<and> heap w' = heap w \<and> msgs w' = msgs w @ [pm] \<and> conns w' = conns w
          \<and> http_errors w' = http_errors w
          \<and> log_calls w' = (if failed = [] \<or> logger (beam w) = None then log_calls w
                             else log_calls w @ [(''Discarded buffer overflow message for %s'', [Join failed '',''])])
          \<and> length (chans w') = length (chans w)
          \<and> (\<forall>c < length (chans w). chans w' ! c =
                (if c \<in> chan_of w ` set ks \<and> chan_ready (chans w ! c)
                 then chan_push (length (msgs w)) (chans w ! c) else chans w ! c))"
proof -
  define w2 where "w2 = w\<lparr>msgs := msgs w @ [pm], beam := (beam w)\<lparr>lock := True\<rparr>\<rparr>"
  have L: "Lock (w\<lparr>msgs := msgs w @ [pm]\<rparr>) = Returns () w2"
    using l by (simp add: Lock_def w2_def)
  have w2: "heap w2 = heap w" "chans w2 = chans w" "msgs w2 = msgs w @ [pm]" "conns w2 = conns w"
    "log_calls w2 = log_calls w" "http_errors w2 = http_errors w" "logger (beam w2) = logger (beam w)"
    by (simp_all add: w2_def)
  have co: "chan_of w2 = chan_of w" by (simp add: chan_of_def fun_eq_iff w2)
  have un: "\<And>x. beam x = beam w2 \<Longrightarrow> beam (Unlock x) = beam w"
    using l by (simp add: Unlock_def w2_def)
  have unf: "\<And>x. heap (Unlock x) = heap x \<and> conns (Unlock x) = conns x \<and> chans (Unlock x) = chans x
      \<and> msgs (Unlock x) = msgs x \<and> log_calls (Unlock x) = log_calls x \<and> http_errors (Unlock x) = http_errors x"
    by (simp add: Unlock_def)
  have V2: "\<forall>p\<in>set ks. p < length (heap w2) \<and> chan_of w2 p < length (chans w2)"
    using V by (simp add: co w2)
  have D2: "distinct (map (chan_of w2) ks)" using D by (simp add: co)
  from send_loop_ok[OF V2 D2, of "length (msgs w)" "[]"] obtain w3 where
    r: "send_loop (length (msgs w)) ks [] w2 = Returns failed w3"
    and b3: "beam w3 = beam w2" "heap w3 = heap w" "msgs w3 = msgs w @ [pm]" "conns w3 = conns w"
      "log_calls w3 = log_calls w" "http_errors w3 = http_errors w" "length (chans w3) = length (chans w)"
    and c3: "\<forall>c < length (chans w). chans w3 ! c =
                (if c \<in> chan_of w ` set ks \<and> chan_ready (chans w ! c)
                 then chan_push (length (msgs w)) (chans w ! c) else chans w ! c)"
    by (auto simp: co w2 failed_def)
  have S: "Send marshal prepare ks data w =
          (if 0 < length failed
           then (case call_logger ''Discarded buffer overflow message for %s'' [Join failed '',''] w3 of
                   Returns u w4 \<Rightarrow> Returns None (Unlock w4)
                 | Panics e w4 \<Rightarrow> Panics e (Unlock w4)
                 | Blocks w4 \<Rightarrow> Blocks w4)
           else Returns None (Unlock w3))"
    using m p L r by (simp add: Send_def Let_def)
  show ?thesis
  proof (cases "failed = []")
    case True
    then have "Send marshal prepare ks data w = Returns None (Unlock w3)" using S by simp
    then show ?thesis using True un[OF b3(1)] b3 c3 by (auto simp: unf)
  next
    case False
    note ne = this
    show ?thesis
    proof (cases "logger (beam w)")
      case None
      then have "logger (beam w3) = None" using b3(1) w2 by simp
      then have "Send marshal prepare ks data w
              = Panics ''invalid memory address or nil pointer dereference'' (Unlock w3)"
        using S ne by (simp add: call_logger_def)
      then show ?thesis using ne None un[OF b3(1)] b3 c3 by (auto simp: unf)
    next
      case (Some f)
      define w4 where "w4 = w3\<lparr>log_calls := log_calls w3 @ [(''Discarded buffer overflow message for %s'', [Join failed '',''])]\<rparr>"
      have "logger (beam w3) = Some f" using Some b3(1) w2 by simp
      then have "Send marshal prepare ks data w = Returns None (Unlock w4)"
        using S ne by (simp add: call_logger_def w4_def)
      moreover have "beam w4 = beam w2" "heap w4 = heap w" "msgs w4 = msgs w @ [pm]" "conns w4 = conns w"
        "http_errors w4 = http_errors w" "chans w4 = chans w3"
        "log_calls w4 = log_calls w @ [(''Discarded buffer overflow message for %s'', [Join failed '',''])]"
        using b3 by (simp_all add: w4_def)
      ultimately show ?thesis using ne Some un[of w4] b3 c3 by (auto simp: unf)
    qed
  qed
qed

text \<open>
  A sequence of calls of \<^verbatim>\<open>Send\<close>, each made in the state the call before it left
  (whether that call returned or panicked), each with its payload and the order in
  which its loop visits the keys.
\<close>

fun Sends ::
  "('d \<Rightarrow> string + bytes) \<Rightarrow> (int \<Rightarrow> bytes \<Rightarrow> string + 'pm) \<Rightarrow> (pear_ptr list \<times> 'd) list \<Rightarrow>
   ('u, 'pm) world \<Rightarrow> ('u, 'pm) world"
where
  "Sends marshal prepare [] w = w"
| "Sends marshal prepare (call # calls) w =
     Sends marshal prepare calls (state_of (Send marshal prepare (fst call) (snd call) w))"

text \<open>The prepared message that \<^verbatim>\<open>Send\<close> builds for a payload, if it builds one.\<close>

definition prepared :: "('d \<Rightarrow> string + bytes) \<Rightarrow> (int \<Rightarrow> bytes \<Rightarrow> string + 'pm) \<Rightarrow> 'd \<Rightarrow> 'pm option" where
  "prepared marshal prepare d =
     (case marshal d of Inl e \<Rightarrow> None
      | Inr bs \<Rightarrow> (case prepare 1 bs of Inl e \<Rightarrow> None | Inr pm \<Rightarrow> Some pm))"

section \<open>Send on well-formed states\<close>

lemma wf_range_order:
  assumes "wf_world w" "range_order ks w"
  shows "\<forall>p\<in>set ks. p < length (heap w) \<and> chan_of w p < length (chans w)"
    and "distinct (map (chan_of w) ks)"
  using assms by (auto simp: wf_world_def wf_pears_def range_order_def distinct_map)

lemma pear_reads:
  assumes "p < length (heap w)" "chan_of w p < length (chans w)"
  shows "pear_chan w p = Some (chans w ! chan_of w p)"
    and "pear_ready w p = chan_ready (chans w ! chan_of w p)"
    and "queue_of w p = pending (chans w ! chan_of w p)"
    and "addr_of w p = addr (heap w ! p)"
  using assms
  by (simp_all add: pear_chan_def pear_ready_def queue_of_def pending_def addr_of_def deref_def chan_of_def)

lemma Send_pear_effect:
  assumes wf: "wf_world w" and ro: "range_order ks w" and l: "\<not> lock (beam w)"
      and m: "marshal data = Inr bs" and p: "prepare 1 bs = Inr pm"
  defines "failed \<equiv> map (addr_of w) (filter (\<lambda>p. \<not> pear_ready w p) ks)"
  shows "\<exists>w'. Send marshal prepare ks data w =
            (if failed = [] then Returns None w'
             else case logger (beam w) of
                    None \<Rightarrow> Panics ''invalid memory address or nil pointer dereference'' w'
                  | Some f \<Rightarrow> Returns None w')
          \<and> beam w' = beam w \<and> heap w' = heap w \<and> msgs w' = msgs w @ [pm]
          \<and> log_calls w' = (if failed = [] \<or> logger (beam w) = None then log_calls w
                             else log_calls w @ [(''Discarded buffer overflow message for %s'', [Join failed '',''])])
          \<and> (\<forall>p\<in>set ks. queue_of w' p =
                (if pear_ready w p then queue_of w p @ [length (msgs w)] else queue_of w p))"
proof -
  note V = wf_range_order(1)[OF wf ro] and D = wf_range_order(2)[OF wf ro]
  have f1: "filter (\<lambda>p. \<not> chan_ready (chans w ! chan_of w p)) ks = filter (\<lambda>p. \<not> pear_ready w p) ks"
    by (rule filter_cong[OF refl]) (simp add: pear_reads(2) V)
  have f2: "map (\<lambda>p. addr (heap w ! p)) (filter (\<lambda>p. \<not> pear_ready w p) ks) = failed"
    unfolding failed_def by (rule map_cong[OF refl]) (simp add: pear_reads(4) V)
  from Send_effect[where marshal=marshal and data=data and prepare=prepare, OF m p l V D] obtain w' where
    S: "Send marshal prepare ks data w =
            (if failed = [] then Returns None w'
             else case logger (beam w) of
                    None \<Rightarrow> Panics ''invalid memory address or nil pointer dereference'' w'
                  | Some f \<Rightarrow> Returns None w')"
    and fr: "beam w' = beam w" "heap w' = heap w" "msgs w' = msgs w @ [pm]"
    and lg: "log_calls w' = (if failed = [] \<or> logger (beam w) = None then log_calls w
                             else log_calls w @ [(''Discarded buffer overflow message for %s'', [Join failed '',''])])"
    and len: "length (chans w') = length (chans w)"
    and c: "\<forall>c < length (chans w). chans w' ! c =
                (if c \<in> chan_of w ` set ks \<and> chan_ready (chans w ! c)
                 then chan_push (length (msgs w)) (chans w ! c) else chans w ! c)"
    unfolding f1 f2 by blast
  have q: "queue_of w' q = (if pear_ready w q then queue_of w q @ [length (msgs w)] else queue_of w q)"
    if "q \<in> set ks" for q
  proof -
    have v: "q < length (heap w)" "chan_of w q < length (chans w)" using V that by auto
    have co: "chan_of w' q = chan_of w q" by (simp add: chan_of_def fr)
    have v': "q < length (heap w')" "chan_of w' q < length (chans w')" using v by (simp_all add: fr len co)
    have "chans w' ! chan_of w q =
            (if chan_ready (chans w ! chan_of w q)
             then chan_push (length (msgs w)) (chans w ! chan_of w q) else chans w ! chan_of w q)"
      using c v that by simp
    then show ?thesis
      by (simp add: pear_reads(3)[OF v'] pear_reads(2,3)[OF v] co pending_chan_push)
  qed
  show ?thesis using S fr lg q by blast
qed

lemma failed_empty_iff:
  "map f (filter (\<lambda>p. \<not> P p) ks) = [] \<longleftrightarrow> (\<forall>p\<in>set ks. P p)"
  by (simp add: filter_empty_conv)

lemma wf_world_cong:
  "beam w' = beam w \<Longrightarrow> heap w' = heap w \<Longrightarrow> length (chans w') = length (chans w) \<Longrightarrow>
   wf_world w' = wf_world w"
proof -
  assume a: "beam w' = beam w" "heap w' = heap w" "length (chans w') = length (chans w)"
  have "chan_of w' = chan_of w" by (simp add: chan_of_def fun_eq_iff a)
  then show ?thesis by (simp add: wf_world_def wf_pears_def a)
qed

lemma range_order_cong: "beam w' = beam w \<Longrightarrow> range_order ks w' = range_order ks w"
  by (simp add: range_order_def)

lemma Send_state_effect:
  assumes wf: "wf_world w" and ro: "range_order ks w" and l: "\<not> lock (beam w)"
      and m: "marshal data = Inr bs" and p: "prepare 1 bs = Inr pm"
  defines "w' \<equiv> state_of (Send marshal prepare ks data w)"
  shows "beam w' = beam w" and "heap w' = heap w" and "msgs w' = msgs w @ [pm]"
    and "length (chans w') = length (chans w)"
    and "\<forall>q\<in>set ks. \<exists>c. pear_chan w q = Some c \<and>
            pear_chan w' q = Some (if chan_ready c then chan_push (length (msgs w)) c else c)"
proof -
  note V = wf_range_order(1)[OF wf ro] and D = wf_range_order(2)[OF wf ro]
  from Send_effect[where marshal=marshal and data=data and prepare=prepare, OF m p l V D]
  obtain w2 where
    E: "Send marshal prepare ks data w =
            (if map (\<lambda>p. addr (heap w ! p)) (filter (\<lambda>p. \<not> chan_ready (chans w ! chan_of w p)) ks) = []
             then Returns None w2
             else case logger (beam w) of
                    None \<Rightarrow> Panics ''invalid memory address or nil pointer dereference'' w2
                  | Some f \<Rightarrow> Returns None w2)"
    and fr: "beam w2 = beam w" "heap w2 = heap w" "msgs w2 = msgs w @ [pm]"
    and len: "length (chans w2) = length (chans w)"
    and c: "\<forall>c < length (chans w). chans w2 ! c =
                (if c \<in> chan_of w ` set ks \<and> chan_ready (chans w ! c)
                 then chan_push (length (msgs w)) (chans w ! c) else chans w ! c)"
    by blast
  have S: "state_of (Send marshal prepare ks data w) = w2"
    unfolding E by (simp split: option.splits)
  have w2: "w' = w2" using S by (simp add: w'_def)
  show "beam w' = beam w" "heap w' = heap w" "msgs w' = msgs w @ [pm]"
    "length (chans w') = length (chans w)"
    using fr len by (simp_all add: w2)
  show "\<forall>q\<in>set ks. \<exists>c. pear_chan w q = Some c \<and>
            pear_chan w' q = Some (if chan_ready c then chan_push (length (msgs w)) c else c)"
  proof
    fix q assume q: "q \<in> set ks"
    have v: "q < length (heap w)" "chan_of w q < length (chans w)" using V q by auto
    have co: "chan_of w2 q = chan_of w q" by (simp add: chan_of_def fr)
    have v': "q < length (heap w2)" "chan_of w2 q < length (chans w2)" using v by (simp_all add: fr len co)
    have "chans w2 ! chan_of w q =
            (if chan_ready (chans w ! chan_of w q)
             then chan_push (length (msgs w)) (chans w ! chan_of w q) else chans w ! chan_of w q)"
      using c v q by simp
    then show "\<exists>c. pear_chan w q = Some c \<and>
            pear_chan w' q = Some (if chan_ready c then chan_push (length (msgs w)) c else c)"
      by (simp add: w2 pear_reads(1)[OF v'] pear_reads(1)[OF v] co)
  qed
qed

lemma take_upt_snoc:
  "n0 \<le> n \<Longrightarrow> take K [n0..<Suc n] = (if n - n0 < K then take K [n0..<n] @ [n] else take K [n0..<n])"
  by (auto simp: take_Suc_conv_app_nth)

lemma Sends_queue:
  assumes "wf_world w" and "\<not> lock (beam w)"
      and "\<forall>call\<in>set calls. range_order (fst call) w \<and>
             (\<exists>bs pm. marshal (snd call) = Inr bs \<and> prepare 1 bs = Inr pm)"
      and "p \<in> dom (pears (beam w))"
      and "pear_chan w p = Some c" and "\<not> recv_parked c"
      and "buf c = take (cap c) [n0..<length (msgs w)]" and "n0 \<le> length (msgs w)"
      and "handed c = None"
  shows "queue_of (Sends marshal prepare calls w) p = take (cap c) [n0..<length (msgs w) + length calls]"
  using assms
proof (induction calls arbitrary: w c)
  case Nil
  then show ?case by (simp add: queue_of_def pending_def)
next
  case (Cons call calls)
  obtain ks d where call: "call = (ks, d)" by (cases call)
  from Cons.prems(3) call obtain bs pm where ro: "range_order ks w"
    and m: "marshal d = Inr bs" and pp: "prepare 1 bs = Inr pm" by auto
  define w' where "w' = state_of (Send marshal prepare ks d w)"
  note e = Send_state_effect[where marshal=marshal and data=d and prepare=prepare,
      OF Cons.prems(1) ro Cons.prems(2) m pp, folded w'_def]
  have pk: "p \<in> set ks" using ro Cons.prems(4) by (simp add: range_order_def)
  define c' where "c' = (if chan_ready c then chan_push (length (msgs w)) c else c)"
  have pc': "pear_chan w' p = Some c'" using e(5) pk Cons.prems(5) by (auto simp: c'_def)
  have rdy: "chan_ready c = (length (msgs w) - n0 < cap c)"
    using Cons.prems(6,7,8) by (auto simp: chan_ready_def)
  have c'1: "cap c' = cap c" "\<not> recv_parked c'" "handed c' = None"
    using Cons.prems(6,9) by (simp_all add: c'_def chan_push_def)
  have c'2: "buf c' = take (cap c) [n0..<length (msgs w')]"
    using Cons.prems(6,7,8) rdy by (simp add: c'_def chan_push_def e(3) take_upt_snoc)
  have wf': "wf_world w'" using Cons.prems(1) wf_world_cong[OF e(1,2,4)] by simp
  have l': "\<not> lock (beam w')" using Cons.prems(2) e(1) by simp
  have calls': "\<forall>call\<in>set calls. range_order (fst call) w' \<and>
             (\<exists>bs pm. marshal (snd call) = Inr bs \<and> prepare 1 bs = Inr pm)"
    using Cons.prems(3) range_order_cong[OF e(1)] by simp
  have p': "p \<in> dom (pears (beam w'))" using Cons.prems(4) e(1) by simp
  have n': "n0 \<le> length (msgs w')" using Cons.prems(8) e(3) by simp
  from Cons.IH[OF wf' l' calls' p' pc' c'1(2) c'2[folded c'1(1)] n' c'1(3)]
  show ?case by (simp add: call w'_def[symmetric] c'1 e(3))
qed

lemma Sends_msgs:
  assumes "wf_world w" and "\<not> lock (beam w)"
      and "\<forall>call\<in>set calls. range_order (fst call) w \<and>
             (\<exists>bs pm. marshal (snd call) = Inr bs \<and> prepare 1 bs = Inr pm)"
  shows "map Some (msgs (Sends marshal prepare calls w))
           = map Some (msgs w) @ map (\<lambda>call. prepared marshal prepare (snd call)) calls"
  using assms
proof (induction calls arbitrary: w)
  case Nil
  then show ?case by simp
next
  case (Cons call calls)
  obtain ks d where call: "call = (ks, d)" by (cases call)
  from Cons.prems(3) call obtain bs pm where ro: "range_order ks w"
    and m: "marshal d = Inr bs" and pp: "prepare 1 bs = Inr pm" by auto
  define w' where "w' = state_of (Send marshal prepare ks d w)"
  note e = Send_state_effect[where marshal=marshal and data=d and prepare=prepare,
      OF Cons.prems(1) ro Cons.prems(2) m pp, folded w'_def]
  have wf': "wf_world w'" using Cons.prems(1) wf_world_cong[OF e(1,2,4)] by simp
  have l': "\<not> lock (beam w')" using Cons.prems(2) e(1) by simp
  have calls': "\<forall>call\<in>set calls. range_order (fst call) w' \<and>
             (\<exists>bs pm. marshal (snd call) = Inr bs \<and> prepare 1 bs = Inr pm)"
    using Cons.prems(3) range_order_cong[OF e(1)] by simp
  from Cons.IH[OF wf' l' calls']
  show ?case by (simp add: call w'_def[symmetric] e(3) prepared_def m pp)
qed

lemma send_loop_pears:
  assumes wf: "wf_world w" and ro: "range_order ks w"
  shows "\<exists>w'. send_loop msg ks [] w
                = Returns (map (addr_of w) (filter (\<lambda>q. \<not> pear_ready w q) ks)) w' \<and>
              (\<forall>q\<in>set ks. queue_of w' q =
                 (if pear_ready w q then queue_of w q @ [msg] else queue_of w q))"
proof -
  note V = wf_range_order(1)[OF wf ro] and D = wf_range_order(2)[OF wf ro]
  have f1: "filter (\<lambda>p. \<not> chan_ready (chans w ! chan_of w p)) ks = filter (\<lambda>p. \<not> pear_ready w p) ks"
    by (rule filter_cong[OF refl]) (simp add: pear_reads(2) V)
  have f2: "map (\<lambda>p. addr (heap w ! p)) (filter (\<lambda>p. \<not> pear_ready w p) ks)
          = map (addr_of w) (filter (\<lambda>p. \<not> pear_ready w p) ks)"
    by (rule map_cong[OF refl]) (simp add: pear_reads(4) V)
  from send_loop_ok[OF V D, of msg "[]"] obtain w' where
    S: "send_loop msg ks [] w = Returns (map (addr_of w) (filter (\<lambda>q. \<not> pear_ready w q) ks)) w'"
    and fr: "heap w' = heap w" "length (chans w') = length (chans w)"
    and c: "\<forall>c < length (chans w). chans w' ! c =
                (if c \<in> chan_of w ` set ks \<and> chan_ready (chans w ! c)
                 then chan_push msg (chans w ! c) else chans w ! c)"
    unfolding f1 f2 by auto
  have q: "queue_of w' q = (if pear_ready w q then queue_of w q @ [msg] else queue_of w q)"
    if "q \<in> set ks" for q
  proof -
    have v: "q < length (heap w)" "chan_of w q < length (chans w)" using V that by auto
    have co: "chan_of w' q = chan_of w q" by (simp add: chan_of_def fr)
    have v': "q < length (heap w')" "chan_of w' q < length (chans w')" using v by (simp_all add: fr co)
    have "chans w' ! chan_of w q =
            (if chan_ready (chans w ! chan_of w q)
             then chan_push msg (chans w ! chan_of w q) else chans w ! chan_of w q)"
      using c v that by simp
    then show ?thesis
      by (simp add: pear_reads(3)[OF v'] pear_reads(2,3)[OF v] co pending_chan_push)
  qed
  show ?thesis using S q by blast
qed

text \<open>
  With a logger, \<^verbatim>\<open>Send\<close> on a well-formed state returns, and it returns an error
  exactly when \<^verbatim>\<open>json.Marshal\<close> or \<^verbatim>\<open>websocket.NewPreparedMessage\<close> does.
\<close>

lemma Send_with_logger_returns:
  assumes "wf_world w" and "range_order ks w" and "\<not> lock (beam w)" and "logger (beam w) \<noteq> None"
  shows "\<exists>w'. Send marshal prepare ks data w =
           Returns (case marshal data of
                      Inl e \<Rightarrow> Some (FailedMarshaling data e)
                    | Inr bs \<Rightarrow> (case prepare 1 bs of
                                  Inl e \<Rightarrow> Some (FailedPreparing bs e)
                                | Inr pm \<Rightarrow> None)) w'"
proof (cases "marshal data")
  case (Inl e)
  then show ?thesis by (simp add: Send_def)
next
  case (Inr bs)
  note m = this
  show ?thesis
  proof (cases "prepare 1 bs")
    case (Inl e)
    with m show ?thesis by (simp add: Send_def)
  next
    case (Inr pm)
    from assms(4) obtain f where f: "logger (beam w) = Some f" by auto
    from Send_pear_effect[where marshal = marshal and data = data and prepare = prepare,
        OF assms(1,2,3) m Inr]
    obtain w' where "Send marshal prepare ks data w = Returns None w'"
      by (auto simp: f split: if_splits)
    with m Inr show ?thesis by simp
  qed
qed

section \<open>Registration in ServeHTTP\<close>


lemma ServeHTTP_register_out_of_range:
  "buffer (beam w) < 0 \<or> lim < buffer (beam w) \<Longrightarrow>
   ServeHTTP_register lim r w = Panics ''makechan: size out of range'' w"
  by (simp add: ServeHTTP_register_def make_chan_def)

lemma Upgrade_replies_frame:
  "beam (Upgrade_replies rw replies w) = beam w \<and>
   heap (Upgrade_replies rw replies w) = heap w \<and>
   chans (Upgrade_replies rw replies w) = chans w \<and>
   conns (Upgrade_replies rw replies w) = conns w \<and>
   msgs (Upgrade_replies rw replies w) = msgs w \<and>
   log_calls (Upgrade_replies rw replies w) = log_calls w \<and>
   http_errors (Upgrade_replies rw replies w)
     = http_errors w @ map (\<lambda>reply. (rw, fst reply, snd reply)) replies"
  unfolding Upgrade_replies_def
  by (induction replies arbitrary: w) (simp_all add: http_Error_def)

section \<open>Example states\<close>

text \<open>Whether a call returned (and what), and whether it panicked.\<close>

fun returned :: "('a, 's) outcome \<Rightarrow> 'a option" where
  "returned (Returns x s) = Some x"
| "returned (Panics e s) = None"
| "returned (Blocks s) = None"

fun panicked :: "('a, 's) outcome \<Rightarrow> bool" where
  "panicked (Returns x s) = False"
| "panicked (Panics e s) = True"
| "panicked (Blocks s) = False"

text \<open>
  Stand-ins for \<^verbatim>\<open>json.Marshal\<close> and \<^verbatim>\<open>websocket.NewPreparedMessage\<close> in the examples:
  the payload \<open>''chan''\<close> cannot be serialised, every other string is its own encoding;
  a prepared message records the message type and the bytes.
\<close>

definition example_marshal :: "string \<Rightarrow> string + bytes" where
  "example_marshal d = (if d = ''chan'' then Inl ''json: unsupported type'' else Inr d)"

definition example_prepare :: "int \<Rightarrow> bytes \<Rightarrow> string + int \<times> bytes" where
  "example_prepare t bs = Inr (t, bs)"

text \<open>
  \<open>quiet_world\<close>: a Beam built by \<^verbatim>\<open>New(OptLogger(nil), OptBuffer(1))\<close> on which one
  client has been registered by \<^verbatim>\<open>ServeHTTP\<close>.  \<open>full_world\<close>: the same after one
  \<^verbatim>\<open>Send\<close> that nobody has read, so that the queue of the pear is full.
\<close>

text \<open>A stand-in for the limit of \<^verbatim>\<open>make\<close> in the examples.\<close>

definition example_limit :: int where
  "example_limit = 1000000"

definition empty_world :: "'u Beam \<Rightarrow> ('u, 'pm) world" where
  "empty_world b = \<lparr>beam = b, heap = [], chans = [], msgs = [], conns = [], log_calls = [], http_errors = []\<rparr>"

definition quiet_world :: "(unit, int \<times> bytes) world" where
  "quiet_world = state_of (ServeHTTP_register example_limit \<lparr>RemoteAddr = ''10.0.0.1:4000''\<rparr>
                   (empty_world (New () [OptLogger None, OptBuffer 1])))"

lemma quiet_world_eq:
  "quiet_world = \<lparr>beam = \<lparr>pears = [0 \<mapsto> True], lock = False, buffer = 1, upgrader = (),
                          headers = Map.empty, logger = None\<rparr>,
                  heap = [\<lparr>ch = 0, addr = ''10.0.0.1:4000''\<rparr>],
                  chans = [\<lparr>cap = 1, buf = [], recv_parked = False, handed = None\<rparr>],
                  msgs = [], conns = [], log_calls = [], http_errors = []\<rparr>"
  by (simp add: quiet_world_def empty_world_def New_def OptLogger_def OptBuffer_def
      ServeHTTP_register_def make_chan_def example_limit_def log_def add_def Lock_def Unlock_def)

definition full_world :: "(unit, int \<times> bytes) world" where
  "full_world = state_of (Send example_marshal example_prepare [0] ''first'' quiet_world)"

lemma full_world_eq:
  "full_world = \<lparr>beam = \<lparr>pears = [0 \<mapsto> True], lock = False, buffer = 1, upgrader = (),
                          headers = Map.empty, logger = None\<rparr>,
                  heap = [\<lparr>ch = 0, addr = ''10.0.0.1:4000''\<rparr>],
                  chans = [\<lparr>cap = 1, buf = [0], recv_parked = False, handed = None\<rparr>],
                  msgs = [(1, ''first'')], conns = [], log_calls = [], http_errors = []\<rparr>"
  by (simp add: full_world_def quiet_world_eq Send_def example_marshal_def example_prepare_def
      Lock_def Unlock_def send_one_def deref_def chan_ready_def chan_push_def)

text \<open>
  \<open>mixed_world\<close>: a Beam with the default logger and buffer 1; a first client is
  registered, one \<^verbatim>\<open>Send\<close> fills its queue, then a second client is registered.
  The first pear is full, the second has room.
\<close>

definition mixed_world :: "(unit, int \<times> bytes) world" where
  "mixed_world =
     state_of (ServeHTTP_register example_limit \<lparr>RemoteAddr = ''10.0.0.2:4000''\<rparr>
       (state_of (Send example_marshal example_prepare [0] ''first''
         (state_of (ServeHTTP_register example_limit \<lparr>RemoteAddr = ''10.0.0.1:4000''\<rparr>
           (empty_world (New () [OptBuffer 1])))))))"

lemma mixed_world_eq:
  "mixed_world = \<lparr>beam = \<lparr>pears = [0 \<mapsto> True, 1 \<mapsto> True], lock = False, buffer = 1, upgrader = (),
                          headers = Map.empty, logger = Some (LogFn ''log.Printf'')\<rparr>,
                  heap = [\<lparr>ch = 0, addr = ''10.0.0.1:4000''\<rparr>, \<lparr>ch = 1, addr = ''10.0.0.2:4000''\<rparr>],
                  chans = [\<lparr>cap = 1, buf = [0], recv_parked = False, handed = None\<rparr>, \<lparr>cap = 1, buf = [], recv_parked = False, handed = None\<rparr>],
                  msgs = [(1, ''first'')], conns = [],
                  log_calls = [(''[10.0.0.1:4000] New connection'', []), (''[10.0.0.2:4000] New connection'', [])],
                  http_errors = []\<rparr>"
  by (simp add: mixed_world_def empty_world_def New_def OptBuffer_def
      ServeHTTP_register_def make_chan_def example_limit_def log_def call_logger_def deref_def add_def Lock_def Unlock_def
      Send_def example_marshal_def example_prepare_def send_one_def chan_ready_def chan_push_def)

lemma mixed_world_wf:
  "wf_world mixed_world" "range_order [1, 0] mixed_world" "\<not> lock (beam mixed_world)"
  "logger (beam mixed_world) = Some (LogFn ''log.Printf'')"
  by (auto simp: mixed_world_eq wf_world_def wf_pears_def range_order_def chan_of_def inj_on_def)

lemma mixed_world_reads:
  "pear_ready mixed_world 0 = False" "pear_ready mixed_world 1 = True"
  "queue_of mixed_world 0 = [0]" "queue_of mixed_world 1 = []"
  "pear_ready mixed_world (Suc 0) = True" "queue_of mixed_world (Suc 0) = []"
  "addr_of mixed_world 0 = ''10.0.0.1:4000''" "msgs mixed_world = [(1, ''first'')]"
  by (simp_all add: mixed_world_eq pear_ready_def pear_chan_def queue_of_def pending_def addr_of_def deref_def chan_ready_def)

lemma mixed_world_Send_second:
  "Send example_marshal example_prepare [1, 0] ''second'' mixed_world
     = Returns None
         (mixed_world\<lparr>msgs := [(1, ''first''), (1, ''second'')],
            chans := [\<lparr>cap = 1, buf = [0], recv_parked = False, handed = None\<rparr>, \<lparr>cap = 1, buf = [1], recv_parked = False, handed = None\<rparr>],
            log_calls := log_calls mixed_world @
              [(''Discarded buffer overflow message for %s'', [''10.0.0.1:4000''])]\<rparr>)"
  by (simp add: mixed_world_eq Send_def example_marshal_def example_prepare_def
      Lock_def Unlock_def send_one_def deref_def chan_ready_def chan_push_def call_logger_def)

lemma quiet_world_wf:
  "wf_world quiet_world" "range_order [0] quiet_world" "\<not> lock (beam quiet_world)"
  "0 \<in> dom (pears (beam quiet_world))"
  "pear_chan quiet_world 0 = Some \<lparr>cap = 1, buf = [], recv_parked = False, handed = None\<rparr>"
  "pear_ready quiet_world 0" "queue_of quiet_world 0 = []" "msgs quiet_world = []"
  "logger (beam quiet_world) = None"
  by (auto simp: quiet_world_eq wf_world_def wf_pears_def range_order_def chan_of_def
      pear_chan_def pear_ready_def queue_of_def pending_def deref_def chan_ready_def)


section \<open>Interleaved executions\<close>

text \<open>
  Where a call of \<^verbatim>\<open>ServeHTTP\<close> stands: waiting for the answer of \<^verbatim>\<open>Upgrade\<close>
  (the pear is registered already), at the \<^verbatim>\<open>select\<close> of its loop, after the loop
  with the deferred \<^verbatim>\<open>b.remove(p)\<close> still to run, or returned.
\<close>

datatype status = Upgrading | InLoop | Leaving | Returned

record handler =
  h_rw :: nat
  h_conn :: "conn_ptr option"
  h_at :: status

text \<open>
  The state of a running program: the shared state, the \<^verbatim>\<open>Send\<close> that holds the mutex
  (its message, the keys its loop has still to visit, and its list \<open>failed\<close>), and the
  calls of \<^verbatim>\<open>ServeHTTP\<close>: the call that created the pear \<open>p\<close> is \<open>handlers ! p\<close>.
\<close>

record ('u, 'pm) sys =
  world :: "('u, 'pm) world"
  sending :: "(msg_ptr \<times> pear_ptr list \<times> string list) option"
  handlers :: "handler list"

text \<open>
  The steps goroutines take.  A \<^verbatim>\<open>Send\<close> is three kinds of steps: it serialises,
  prepares and takes the mutex; it runs one iteration of its loop; it logs and releases
  the mutex.  A call of \<^verbatim>\<open>ServeHTTP\<close> registers its pear; gets the answer of
  \<^verbatim>\<open>Upgrade\<close> (the replies it wrote and the error, if any); blocks in its
  \<^verbatim>\<open>select\<close>; takes a message from
  its channel and writes it (with the error of \<^verbatim>\<open>WritePreparedMessage\<close>, if any);
  takes the case \<^verbatim>\<open><-done\<close>; runs its deferred \<^verbatim>\<open>remove\<close>.  The goroutine of
  \<^verbatim>\<open>clientClosed\<close> closes \<^verbatim>\<open>done\<close>.
\<close>

datatype 'd event =
    SendBegin "pear_ptr list" 'd
  | SendPush
  | SendEnd
  | Accept nat Request
  | UpgradeAnswer pear_ptr "(string \<times> int) list" "string option"
  | Park pear_ptr
  | TakeMsg pear_ptr "string option"
  | ClientGone pear_ptr
  | TakeDone pear_ptr
  | Remove pear_ptr

text \<open>The value and state of a call that returned.\<close>

fun returning :: "('a, 's) outcome \<Rightarrow> ('a \<times> 's) option" where
  "returning (Returns x s) = Some (x, s)"
| "returning (Panics e s) = None"
| "returning (Blocks s) = None"

text \<open>The deferred \<^verbatim>\<open>b.log(p, "Disconnected")\<close> and \<^verbatim>\<open>conn.Close()\<close>, in the order
  they run.\<close>

definition ServeHTTP_leave ::
  "pear_ptr \<Rightarrow> conn_ptr \<Rightarrow> ('u, 'pm) world \<Rightarrow> (unit, ('u, 'pm) world) outcome"
where
  "ServeHTTP_leave p cn w =
     (case log p ''Disconnected'' [] w of
        Returns u w1 \<Rightarrow>
          (case deref (conns w1) cn of
             None \<Rightarrow> Panics ''invalid memory address or nil pointer dereference'' w1
           | Some c \<Rightarrow> Returns () (w1\<lparr>conns := (conns w1)[cn := c\<lparr>closed := True\<rparr>]\<rparr>))
      | Panics e w1 \<Rightarrow> Panics e w1
      | Blocks w1 \<Rightarrow> Blocks w1)"

text \<open>
  One step.  \<open>None\<close>: the step cannot be taken in this state (the goroutine is not
  there, it waits for the mutex, the case of the \<^verbatim>\<open>select\<close> is not ready), or a
  handler dereferences a pointer that does not exist.  A panic of \<^verbatim>\<open>Send\<close> ends that
  call of \<^verbatim>\<open>Send\<close> with its deferred \<^verbatim>\<open>Unlock\<close>.

  A \<^verbatim>\<open>Send\<close> prepares its message and takes the mutex in one step, so the index of a
  message in the store of prepared messages is the position of its \<^verbatim>\<open>Send\<close> in the
  order in which the calls of \<^verbatim>\<open>Send\<close> took the mutex.  The registration of a pear
  (\<^verbatim>\<open>make\<close>, \<^verbatim>\<open>b.log\<close>, \<^verbatim>\<open>b.add\<close>) is one step, taken when the mutex is free.

  Closing \<^verbatim>\<open>done\<close> wakes a handler blocked in its \<^verbatim>\<open>select\<close>: its channel has no
  waiting receiver any more.  A handler that was handed a message while it was blocked
  takes that message, not the case \<^verbatim>\<open><-done\<close>.  When both cases are ready the handler
  takes either.
\<close>

definition step_SendBegin ::
  "('d \<Rightarrow> string + bytes) \<Rightarrow> (int \<Rightarrow> bytes \<Rightarrow> string + 'pm) \<Rightarrow> pear_ptr list \<Rightarrow> 'd \<Rightarrow>
   ('u, 'pm) sys \<Rightarrow> ('u, 'pm) sys option"
where
  "step_SendBegin marshal prepare ks d s =
     (if sending s \<noteq> None \<or> \<not> range_order ks (world s) then None
      else case marshal d of
             Inl err \<Rightarrow> Some s
           | Inr bs \<Rightarrow>
               (case prepare 1 bs of
                  Inl err \<Rightarrow> Some s
                | Inr pm \<Rightarrow>
                    (case returning (Lock ((world s)\<lparr>msgs := msgs (world s) @ [pm]\<rparr>)) of
                       None \<Rightarrow> None
                     | Some (u, w2) \<Rightarrow>
                         Some (s\<lparr>world := w2, sending := Some (length (msgs (world s)), ks, [])\<rparr>))))"

definition step_SendPush :: "('u, 'pm) sys \<Rightarrow> ('u, 'pm) sys option" where
  "step_SendPush s =
     (case sending s of
        Some (msg, p # ps, failed) \<Rightarrow>
          (case send_one msg p failed (world s) of
             Returns failed' w' \<Rightarrow> Some (s\<lparr>world := w', sending := Some (msg, ps, failed')\<rparr>)
           | Panics e w' \<Rightarrow> Some (s\<lparr>world := Unlock w', sending := None\<rparr>)
           | Blocks w' \<Rightarrow> None)
      | _ \<Rightarrow> None)"

definition step_SendEnd :: "('u, 'pm) sys \<Rightarrow> ('u, 'pm) sys option" where
  "step_SendEnd s =
     (case sending s of
        Some (msg, [], failed) \<Rightarrow>
          (if 0 < length failed
           then (case call_logger ''Discarded buffer overflow message for %s''
                        [Join failed '',''] (world s) of
                   Returns u w' \<Rightarrow> Some (s\<lparr>world := Unlock w', sending := None\<rparr>)
                 | Panics e w' \<Rightarrow> Some (s\<lparr>world := Unlock w', sending := None\<rparr>)
                 | Blocks w' \<Rightarrow> None)
           else Some (s\<lparr>world := Unlock (world s), sending := None\<rparr>))
      | _ \<Rightarrow> None)"

definition step_Accept :: "int \<Rightarrow> nat \<Rightarrow> Request \<Rightarrow> ('u, 'pm) sys \<Rightarrow> ('u, 'pm) sys option" where
  "step_Accept lim rw r s =
     (case ServeHTTP_register lim r (world s) of
        Returns pc w' \<Rightarrow>
          Some (s\<lparr>world := w',
                  handlers := handlers s @ [\<lparr>h_rw = rw, h_conn = None, h_at = Upgrading\<rparr>]\<rparr>)
      | Panics e w' \<Rightarrow> Some (s\<lparr>world := w'\<rparr>)
      | Blocks w' \<Rightarrow> None)"

definition step_UpgradeAnswer ::
  "pear_ptr \<Rightarrow> (string \<times> int) list \<Rightarrow> string option \<Rightarrow> ('u, 'pm) sys \<Rightarrow> ('u, 'pm) sys option"
where
  "step_UpgradeAnswer p replies answer s =
     (case deref (handlers s) p of
        None \<Rightarrow> None
      | Some h \<Rightarrow>
          if h_at h \<noteq> Upgrading then None
          else (let w0 = Upgrade_replies (h_rw h) replies (world s)
                in case answer of
                     Some err \<Rightarrow>
                       (case returning (log p ''Failed creating websocket: %s'' [err] w0) of
                          None \<Rightarrow> None
                        | Some (u, w1) \<Rightarrow>
                            Some (s\<lparr>world := http_Error (h_rw h) ''Internal Server Error'' 500 w1,
                                    handlers := (handlers s)[p := h\<lparr>h_at := Leaving\<rparr>]\<rparr>))
                   | None \<Rightarrow>
                       Some (s\<lparr>world := w0\<lparr>conns := conns w0 @
                                          [\<lparr>wrote = [], closed = False, done_closed = False\<rparr>]\<rparr>,
                               handlers := (handlers s)[p := h\<lparr>h_conn := Some (length (conns w0)),
                                                              h_at := InLoop\<rparr>]\<rparr>)))"

text \<open>The handler of \<open>p\<close> when it is in its loop, with its pear, channel and connection.\<close>

definition in_loop :: "('u, 'pm) sys \<Rightarrow> pear_ptr \<Rightarrow> (pear \<times> chan \<times> conn_ptr \<times> conn) option" where
  "in_loop s p =
     (case deref (handlers s) p of
        None \<Rightarrow> None
      | Some h \<Rightarrow>
          if h_at h \<noteq> InLoop then None
          else (case (deref (heap (world s)) p, h_conn h) of
                  (Some pr, Some cn) \<Rightarrow>
                    (case (deref (chans (world s)) (ch pr), deref (conns (world s)) cn) of
                       (Some c, Some k) \<Rightarrow> Some (pr, c, cn, k)
                     | _ \<Rightarrow> None)
                | _ \<Rightarrow> None))"

definition set_status :: "pear_ptr \<Rightarrow> status \<Rightarrow> ('u, 'pm) sys \<Rightarrow> ('u, 'pm) sys" where
  "set_status p st s = s\<lparr>handlers := (handlers s)[p := (handlers s ! p)\<lparr>h_at := st\<rparr>]\<rparr>"

text \<open>
  A receive that does not block: the receiver takes the value handed to it, if there is
  one, else the head of the buffer.
\<close>

definition chan_pop :: "chan \<Rightarrow> (msg_ptr \<times> chan) option" where
  "chan_pop c =
     (case handed c of
        Some v \<Rightarrow> Some (v, c\<lparr>recv_parked := False, handed := None\<rparr>)
      | None \<Rightarrow>
          (case buf c of
             [] \<Rightarrow> None
           | v # rest \<Rightarrow> Some (v, c\<lparr>buf := rest, recv_parked := False\<rparr>)))"

definition step_Park :: "pear_ptr \<Rightarrow> ('u, 'pm) sys \<Rightarrow> ('u, 'pm) sys option" where
  "step_Park p s =
     (case in_loop s p of
        None \<Rightarrow> None
      | Some (pr, c, cn, k) \<Rightarrow>
          if pending c \<noteq> [] \<or> done_closed k then None
          else Some (s\<lparr>world := (world s)\<lparr>chans := (chans (world s))[ch pr := c\<lparr>recv_parked := True\<rparr>]\<rparr>\<rparr>))"

definition step_TakeMsg :: "pear_ptr \<Rightarrow> string option \<Rightarrow> ('u, 'pm) sys \<Rightarrow> ('u, 'pm) sys option" where
  "step_TakeMsg p werr s =
     (case in_loop s p of
        None \<Rightarrow> None
      | Some (pr, c, cn, k) \<Rightarrow>
          (case chan_pop c of
             None \<Rightarrow> None
           | Some (v, c') \<Rightarrow>
               (let w1 = (world s)\<lparr>chans := (chans (world s))[ch pr := c']\<rparr>
                in case werr of
                     None \<Rightarrow>
                       Some (s\<lparr>world := w1\<lparr>conns := (conns w1)[cn := k\<lparr>wrote := wrote k @ [v]\<rparr>]\<rparr>\<rparr>)
                   | Some err \<Rightarrow>
                       (case returning (log p ''Failed writing to connection: %s'' [err] w1) of
                          None \<Rightarrow> None
                        | Some (u, w2) \<Rightarrow>
                            (case returning (ServeHTTP_leave p cn w2) of
                               None \<Rightarrow> None
                             | Some (u, w3) \<Rightarrow> Some (set_status p Leaving (s\<lparr>world := w3\<rparr>)))))))"

definition step_ClientGone :: "pear_ptr \<Rightarrow> ('u, 'pm) sys \<Rightarrow> ('u, 'pm) sys option" where
  "step_ClientGone p s =
     (case in_loop s p of
        None \<Rightarrow> None
      | Some (pr, c, cn, k) \<Rightarrow>
          Some (s\<lparr>world := (world s)
                  \<lparr>chans := (chans (world s))[ch pr := c\<lparr>recv_parked := False\<rparr>],
                   conns := (conns (world s))[cn := k\<lparr>done_closed := True\<rparr>]\<rparr>\<rparr>))"

definition step_TakeDone :: "pear_ptr \<Rightarrow> ('u, 'pm) sys \<Rightarrow> ('u, 'pm) sys option" where
  "step_TakeDone p s =
     (case in_loop s p of
        None \<Rightarrow> None
      | Some (pr, c, cn, k) \<Rightarrow>
          if \<not> done_closed k \<or> handed c \<noteq> None then None
          else (case returning (log p ''Client closed connection'' [] (world s)) of
                  None \<Rightarrow> None
                | Some (u, w1) \<Rightarrow>
                    (case returning (ServeHTTP_leave p cn w1) of
                       None \<Rightarrow> None
                     | Some (u, w2) \<Rightarrow> Some (set_status p Leaving (s\<lparr>world := w2\<rparr>)))))"

definition step_Remove :: "pear_ptr \<Rightarrow> ('u, 'pm) sys \<Rightarrow> ('u, 'pm) sys option" where
  "step_Remove p s =
     (case deref (handlers s) p of
        None \<Rightarrow> None
      | Some h \<Rightarrow>
          if h_at h \<noteq> Leaving then None
          else (case returning (remove_pear p (world s)) of
                  None \<Rightarrow> None
                | Some (u, w1) \<Rightarrow> Some (set_status p Returned (s\<lparr>world := w1\<rparr>))))"

fun step ::
  "int \<Rightarrow> ('d \<Rightarrow> string + bytes) \<Rightarrow> (int \<Rightarrow> bytes \<Rightarrow> string + 'pm) \<Rightarrow> 'd event \<Rightarrow>
   ('u, 'pm) sys \<Rightarrow> ('u, 'pm) sys option"
where
  "step lim marshal prepare (SendBegin ks d) s = step_SendBegin marshal prepare ks d s"
| "step lim marshal prepare SendPush s = step_SendPush s"
| "step lim marshal prepare SendEnd s = step_SendEnd s"
| "step lim marshal prepare (Accept rw r) s = step_Accept lim rw r s"
| "step lim marshal prepare (UpgradeAnswer p replies answer) s = step_UpgradeAnswer p replies answer s"
| "step lim marshal prepare (Park p) s = step_Park p s"
| "step lim marshal prepare (TakeMsg p werr) s = step_TakeMsg p werr s"
| "step lim marshal prepare (ClientGone p) s = step_ClientGone p s"
| "step lim marshal prepare (TakeDone p) s = step_TakeDone p s"
| "step lim marshal prepare (Remove p) s = step_Remove p s"

fun exec ::
  "int \<Rightarrow> ('d \<Rightarrow> string + bytes) \<Rightarrow> (int \<Rightarrow> bytes \<Rightarrow> string + 'pm) \<Rightarrow> 'd event list \<Rightarrow>
   ('u, 'pm) sys \<Rightarrow> ('u, 'pm) sys option"
where
  "exec lim marshal prepare [] s = Some s"
| "exec lim marshal prepare (e # es) s =
     (case step lim marshal prepare e s of
        None \<Rightarrow> None
      | Some s' \<Rightarrow> exec lim marshal prepare es s')"

text \<open>The program before any call: a Beam as \<^verbatim>\<open>New\<close> returns it, and nothing else.\<close>

definition initial :: "'u Beam \<Rightarrow> ('u, 'pm) sys" where
  "initial b = \<lparr>world = empty_world b, sending = None, handlers = []\<rparr>"

text \<open>
  What the claim about delivery order speaks of, for the pear \<open>p\<close>: the messages its
  handler has written to the connection; and the messages that \<^verbatim>\<open>Send\<close> has pushed
  on its channel during an execution, in the order of the pushes.
\<close>

definition written :: "('u, 'pm) sys \<Rightarrow> pear_ptr \<Rightarrow> msg_ptr list" where
  "written s p =
     (case deref (handlers s) p of
        None \<Rightarrow> []
      | Some h \<Rightarrow>
          (case h_conn h of
             None \<Rightarrow> []
           | Some cn \<Rightarrow> (case deref (conns (world s)) cn of None \<Rightarrow> [] | Some k \<Rightarrow> wrote k)))"

definition pushed :: "'d event \<Rightarrow> ('u, 'pm) sys \<Rightarrow> pear_ptr \<Rightarrow> msg_ptr list" where
  "pushed e s p =
     (case (e, sending s) of
        (SendPush, Some (msg, q # qs, failed)) \<Rightarrow>
          if q = p \<and> pear_ready (world s) p then [msg] else []
      | _ \<Rightarrow> [])"

fun accepted ::
  "int \<Rightarrow> ('d \<Rightarrow> string + bytes) \<Rightarrow> (int \<Rightarrow> bytes \<Rightarrow> string + 'pm) \<Rightarrow> 'd event list \<Rightarrow>
   ('u, 'pm) sys \<Rightarrow> pear_ptr \<Rightarrow> msg_ptr list"
where
  "accepted lim marshal prepare [] s p = []"
| "accepted lim marshal prepare (e # es) s p =
     (case step lim marshal prepare e s of
        None \<Rightarrow> []
      | Some s' \<Rightarrow> pushed e s p @ accepted lim marshal prepare es s' p)"

section \<open>Invariants of executions\<close>

text \<open>
  The pears, channels, connections and handlers of a state fit together: a handler for
  every pear, every pear on a channel of its own, every handler past
  \<^verbatim>\<open>Upgrade\<close> on a connection of its own.
\<close>

definition inv_store :: "('u, 'pm) sys \<Rightarrow> bool" where
  "inv_store s =
     (length (handlers s) = length (heap (world s)) \<and>
      (\<forall>p < length (heap (world s)). ch (heap (world s) ! p) < length (chans (world s))) \<and>
      distinct (map ch (heap (world s))) \<and>
      (\<forall>p < length (handlers s). \<forall>cn. h_conn (handlers s ! p) = Some cn \<longrightarrow>
          cn < length (conns (world s))) \<and>
      (\<forall>p < length (handlers s). \<forall>q < length (handlers s). \<forall>cn.
          h_conn (handlers s ! p) = Some cn \<longrightarrow> h_conn (handlers s ! q) = Some cn \<longrightarrow> p = q) \<and>
      (\<forall>p < length (handlers s). h_at (handlers s ! p) = Upgrading \<longrightarrow>
          h_conn (handlers s ! p) = None))"

text \<open>Two states with the same pears, as many channels and connections, and handlers on
  the same connections.\<close>

definition same_shape :: "('u, 'pm) sys \<Rightarrow> ('u, 'pm) sys \<Rightarrow> bool" where
  "same_shape s s' =
     (heap (world s') = heap (world s) \<and>
      length (chans (world s')) = length (chans (world s)) \<and>
      length (conns (world s')) = length (conns (world s)) \<and>
      map h_conn (handlers s') = map h_conn (handlers s) \<and>
      (\<forall>p < length (handlers s). h_at (handlers s' ! p) = Upgrading \<longrightarrow>
          h_at (handlers s ! p) = Upgrading))"

lemma map_eq_nth: "map f xs = map f ys \<Longrightarrow> i < length ys \<Longrightarrow> f (xs ! i) = f (ys ! i)"
  by (metis length_map nth_map)

lemma inv_store_same_shape:
  assumes i: "inv_store s" and sh: "same_shape s s'"
  shows "inv_store s'"
proof -
  have hp: "heap (world s') = heap (world s)"
    and lc: "length (chans (world s')) = length (chans (world s))"
    and lk: "length (conns (world s')) = length (conns (world s))"
    and mc: "map h_conn (handlers s') = map h_conn (handlers s)"
    and up: "\<And>p. p < length (handlers s) \<Longrightarrow> h_at (handlers s' ! p) = Upgrading \<Longrightarrow>
                h_at (handlers s ! p) = Upgrading"
    using sh unfolding same_shape_def by blast+
  have len: "length (handlers s') = length (handlers s)"
    using mc by (metis length_map)
  have hc: "\<And>p. p < length (handlers s) \<Longrightarrow> h_conn (handlers s' ! p) = h_conn (handlers s ! p)"
    using mc by (rule map_eq_nth)
  have i1: "length (handlers s) = length (heap (world s))"
    and i2: "\<And>p. p < length (heap (world s)) \<Longrightarrow> ch (heap (world s) ! p) < length (chans (world s))"
    and i3: "distinct (map ch (heap (world s)))"
    and i4: "\<And>p cn. p < length (handlers s) \<Longrightarrow> h_conn (handlers s ! p) = Some cn \<Longrightarrow>
                cn < length (conns (world s))"
    and i5: "\<And>p q cn. p < length (handlers s) \<Longrightarrow> q < length (handlers s) \<Longrightarrow>
                h_conn (handlers s ! p) = Some cn \<Longrightarrow> h_conn (handlers s ! q) = Some cn \<Longrightarrow> p = q"
    and i6: "\<And>p. p < length (handlers s) \<Longrightarrow> h_at (handlers s ! p) = Upgrading \<Longrightarrow>
                h_conn (handlers s ! p) = None"
    using i unfolding inv_store_def by blast+
  show ?thesis
    unfolding inv_store_def len hp lc lk
  proof (intro conjI allI impI)
    show "length (handlers s) = length (heap (world s))" by (rule i1)
    show "\<And>p. p < length (heap (world s)) \<Longrightarrow> ch (heap (world s) ! p) < length (chans (world s))"
      by (rule i2)
    show "distinct (map ch (heap (world s)))" by (rule i3)
    show "\<And>p cn. p < length (handlers s) \<Longrightarrow> h_conn (handlers s' ! p) = Some cn \<Longrightarrow>
            cn < length (conns (world s))"
      using i4 hc by simp
    show "\<And>p q cn. p < length (handlers s) \<Longrightarrow> q < length (handlers s) \<Longrightarrow>
            h_conn (handlers s' ! p) = Some cn \<Longrightarrow> h_conn (handlers s' ! q) = Some cn \<Longrightarrow> p = q"
      using i5 hc by simp
    show "\<And>p. p < length (handlers s) \<Longrightarrow> h_at (handlers s' ! p) = Upgrading \<Longrightarrow>
            h_conn (handlers s' ! p) = None"
      using i6 hc up by simp
  qed
qed

lemma map_list_update_same: "f y = f (xs ! i) \<Longrightarrow> map f (xs[i := y]) = map f xs"
  by (cases "i < length xs") (auto simp: nth_list_update intro!: nth_equalityI)

lemma log_returning:
  "returning (log p f a w) = Some (u, w') \<Longrightarrow>
   heap w' = heap w \<and> chans w' = chans w \<and> conns w' = conns w \<and> msgs w' = msgs w \<and> beam w' = beam w"
  by (auto simp: log_def call_logger_def split: if_splits option.splits)

lemma leave_returning:
  "returning (ServeHTTP_leave p cn w) = Some (u, w') \<Longrightarrow>
   heap w' = heap w \<and> chans w' = chans w \<and> msgs w' = msgs w \<and> beam w' = beam w \<and>
   length (conns w') = length (conns w) \<and> map wrote (conns w') = map wrote (conns w)"
  by (auto simp: ServeHTTP_leave_def log_def call_logger_def deref_def map_list_update_same
           split: if_splits option.splits outcome.splits)

lemma remove_returning:
  "returning (remove_pear p w) = Some (u, w') \<Longrightarrow>
   heap w' = heap w \<and> chans w' = chans w \<and> conns w' = conns w \<and> msgs w' = msgs w"
  by (auto simp: remove_pear_def Lock_def Unlock_def split: if_splits)

lemma ServeHTTP_register_Returns:
  assumes "ServeHTTP_register lim r w = Returns pc w'"
  shows "pc = (length (heap w), length (chans w))"
    and "heap w' = heap w @ [\<lparr>ch = length (chans w), addr = RemoteAddr r\<rparr>]"
    and "chans w' = chans w @ [\<lparr>cap = nat (buffer (beam w)), buf = [], recv_parked = False, handed = None\<rparr>]"
    and "conns w' = conns w" and "msgs w' = msgs w"
    and "pears (beam w') = (pears (beam w))(length (heap w) \<mapsto> True)"
    and "lock (beam w') = lock (beam w)"
  using assms
  by (auto simp: ServeHTTP_register_def make_chan_def log_def call_logger_def deref_def
        add_def Lock_def Unlock_def Let_def split: if_splits option.splits)

lemma ServeHTTP_register_Panics:
  "ServeHTTP_register lim r w = Panics e w' \<Longrightarrow> w' = w"
  by (auto simp: ServeHTTP_register_def make_chan_def log_def call_logger_def deref_def
        add_def Lock_def Unlock_def Let_def split: if_splits option.splits)

lemma in_loop_Some:
  assumes "in_loop s p = Some (pr, c, cn, k)"
  shows "p < length (handlers s)" and "h_at (handlers s ! p) = InLoop"
    and "h_conn (handlers s ! p) = Some cn"
    and "p < length (heap (world s))" and "pr = heap (world s) ! p"
    and "ch pr < length (chans (world s))" and "c = chans (world s) ! ch pr"
    and "cn < length (conns (world s))" and "k = conns (world s) ! cn"
  using assms
  by (auto simp: in_loop_def deref_def split: option.splits if_splits)

lemma step_SendBegin_eff:
  assumes "step_SendBegin marshal prepare ks d s = Some s'"
  shows "heap (world s') = heap (world s)" and "chans (world s') = chans (world s)"
    and "conns (world s') = conns (world s)" and "handlers s' = handlers s"
    and "s' = s \<or>
         (sending s = None \<and> sending s' = Some (length (msgs (world s)), ks, []) \<and>
          length (msgs (world s')) = Suc (length (msgs (world s))) \<and> distinct ks)"
proof -
  from assms have n: "sending s = None" and ro: "range_order ks (world s)"
    by (cases "sending s"; simp add: step_SendBegin_def split: if_splits)+
  have "s' = s \<or> (\<exists>pm. s' = s\<lparr>world := (world s)\<lparr>msgs := msgs (world s) @ [pm],
                                  beam := (beam (world s))\<lparr>lock := True\<rparr>\<rparr>,
                        sending := Some (length (msgs (world s)), ks, [])\<rparr>)"
    using assms n ro
    by (auto simp: step_SendBegin_def Lock_def split: if_splits sum.splits option.splits)
  then show "heap (world s') = heap (world s)" and "chans (world s') = chans (world s)"
    and "conns (world s') = conns (world s)" and "handlers s' = handlers s"
    and "s' = s \<or>
         (sending s = None \<and> sending s' = Some (length (msgs (world s)), ks, []) \<and>
          length (msgs (world s')) = Suc (length (msgs (world s))) \<and> distinct ks)"
    using n ro by (auto simp: range_order_def)
qed

lemma step_SendPush_eff:
  assumes "step_SendPush s = Some s'"
  shows "\<exists>msg q qs failed.
           sending s = Some (msg, q # qs, failed) \<and>
           (sending s' = None \<or> (\<exists>f'. sending s' = Some (msg, qs, f'))) \<and>
           chans (world s') =
             (if pear_ready (world s) q
              then (chans (world s))[ch (heap (world s) ! q) :=
                      chan_push msg (chans (world s) ! ch (heap (world s) ! q))]
              else chans (world s))"
    and "heap (world s') = heap (world s)" and "conns (world s') = conns (world s)"
    and "handlers s' = handlers s" and "msgs (world s') = msgs (world s)"
proof -
  from assms obtain msg q qs failed where sd: "sending s = Some (msg, q # qs, failed)"
    by (auto simp: step_SendPush_def split: option.splits list.splits)
  have ch: "chans (state_of (send_one msg q failed (world s))) =
             (if pear_ready (world s) q
              then (chans (world s))[ch (heap (world s) ! q) :=
                      chan_push msg (chans (world s) ! ch (heap (world s) ! q))]
              else chans (world s))"
    by (simp add: send_one_def pear_ready_def pear_chan_def deref_def split: option.splits)
  note fr = send_one_state_frame[of msg q failed "world s"]
  show "\<exists>msg q qs failed.
           sending s = Some (msg, q # qs, failed) \<and>
           (sending s' = None \<or> (\<exists>f'. sending s' = Some (msg, qs, f'))) \<and>
           chans (world s') =
             (if pear_ready (world s) q
              then (chans (world s))[ch (heap (world s) ! q) :=
                      chan_push msg (chans (world s) ! ch (heap (world s) ! q))]
              else chans (world s))"
    using assms sd ch
    by (cases "send_one msg q failed (world s)") (auto simp: step_SendPush_def Unlock_def)
  show "heap (world s') = heap (world s)" and "conns (world s') = conns (world s)"
    and "handlers s' = handlers s" and "msgs (world s') = msgs (world s)"
    using assms sd fr
    by (cases "send_one msg q failed (world s)"; simp add: step_SendPush_def Unlock_def; fastforce)+
qed

lemma step_SendEnd_eff:
  assumes "step_SendEnd s = Some s'"
  shows "heap (world s') = heap (world s)" and "chans (world s') = chans (world s)"
    and "conns (world s') = conns (world s)" and "handlers s' = handlers s"
    and "msgs (world s') = msgs (world s)" and "sending s' = None"
  using assms
  by (auto simp: step_SendEnd_def call_logger_def Unlock_def
           split: option.splits list.splits if_splits)

lemma step_Accept_eff:
  assumes "step_Accept lim rw r s = Some s'"
  shows "s' = s \<or>
         (heap (world s') = heap (world s) @ [\<lparr>ch = length (chans (world s)), addr = RemoteAddr r\<rparr>] \<and>
          chans (world s') = chans (world s) @
             [\<lparr>cap = nat (buffer (beam (world s))), buf = [], recv_parked = False, handed = None\<rparr>] \<and>
          conns (world s') = conns (world s) \<and> msgs (world s') = msgs (world s) \<and>
          handlers s' = handlers s @ [\<lparr>h_rw = rw, h_conn = None, h_at = Upgrading\<rparr>] \<and>
          sending s' = sending s)"
proof (cases "ServeHTTP_register lim r (world s)")
  case (Returns pc w')
  with assms have s': "s' = s\<lparr>world := w',
        handlers := handlers s @ [\<lparr>h_rw = rw, h_conn = None, h_at = Upgrading\<rparr>]\<rparr>"
    by (simp add: step_Accept_def)
  show ?thesis using ServeHTTP_register_Returns[OF Returns] by (simp add: s')
next
  case (Panics e w')
  with assms have "s' = s\<lparr>world := w'\<rparr>" by (simp add: step_Accept_def)
  then show ?thesis using ServeHTTP_register_Panics[OF Panics] by simp
next
  case (Blocks w')
  with assms show ?thesis by (simp add: step_Accept_def)
qed

lemma step_UpgradeAnswer_eff:
  assumes "step_UpgradeAnswer p replies answer s = Some s'"
  shows "p < length (handlers s)" and "h_at (handlers s ! p) = Upgrading"
    and "heap (world s') = heap (world s)" and "chans (world s') = chans (world s)"
    and "msgs (world s') = msgs (world s)" and "sending s' = sending s"
    and "(conns (world s') = conns (world s) \<and>
          handlers s' = (handlers s)[p := (handlers s ! p)\<lparr>h_at := Leaving\<rparr>]) \<or>
         (conns (world s') = conns (world s) @ [\<lparr>wrote = [], closed = False, done_closed = False\<rparr>] \<and>
          handlers s' = (handlers s)[p := (handlers s ! p)\<lparr>h_conn := Some (length (conns (world s))),
                                                           h_at := InLoop\<rparr>])"
proof -
  from assms have p: "p < length (handlers s)" and u: "h_at (handlers s ! p) = Upgrading"
    by (auto simp: step_UpgradeAnswer_def deref_def split: option.splits if_splits)
  define w0 where "w0 = Upgrade_replies (h_rw (handlers s ! p)) replies (world s)"
  note fr = Upgrade_replies_frame[of "h_rw (handlers s ! p)" replies "world s", folded w0_def]
  show "p < length (handlers s)" and "h_at (handlers s ! p) = Upgrading" by (rule p, rule u)
  show "heap (world s') = heap (world s)" and "chans (world s') = chans (world s)"
    and "msgs (world s') = msgs (world s)" and "sending s' = sending s"
    and "(conns (world s') = conns (world s) \<and>
          handlers s' = (handlers s)[p := (handlers s ! p)\<lparr>h_at := Leaving\<rparr>]) \<or>
         (conns (world s') = conns (world s) @ [\<lparr>wrote = [], closed = False, done_closed = False\<rparr>] \<and>
          handlers s' = (handlers s)[p := (handlers s ! p)\<lparr>h_conn := Some (length (conns (world s))),
                                                           h_at := InLoop\<rparr>])"
    using assms p u fr
    by (auto simp: step_UpgradeAnswer_def deref_def http_Error_def Let_def w0_def[symmetric]
             dest!: log_returning split: option.splits if_splits)
qed

lemma step_Park_eff:
  assumes "step_Park p s = Some s'"
  shows "\<exists>pr c cn k. in_loop s p = Some (pr, c, cn, k) \<and>
           chans (world s') = (chans (world s))[ch pr := c\<lparr>recv_parked := True\<rparr>]"
    and "heap (world s') = heap (world s)" and "conns (world s') = conns (world s)"
    and "msgs (world s') = msgs (world s)" and "sending s' = sending s"
    and "handlers s' = handlers s"
  using assms
  by (auto simp: step_Park_def split: option.splits if_splits)

lemma step_ClientGone_eff:
  assumes "step_ClientGone p s = Some s'"
  shows "\<exists>pr c cn k. in_loop s p = Some (pr, c, cn, k) \<and>
           chans (world s') = (chans (world s))[ch pr := c\<lparr>recv_parked := False\<rparr>] \<and>
           conns (world s') = (conns (world s))[cn := k\<lparr>done_closed := True\<rparr>]"
    and "heap (world s') = heap (world s)"
    and "length (chans (world s')) = length (chans (world s))"
    and "msgs (world s') = msgs (world s)" and "sending s' = sending s"
    and "handlers s' = handlers s"
  using assms
  by (auto simp: step_ClientGone_def split: option.splits if_splits)

lemma step_TakeDone_eff:
  assumes "step_TakeDone p s = Some s'"
  shows "p < length (handlers s)"
    and "heap (world s') = heap (world s)" and "chans (world s') = chans (world s)"
    and "msgs (world s') = msgs (world s)" and "sending s' = sending s"
    and "length (conns (world s')) = length (conns (world s))"
    and "map wrote (conns (world s')) = map wrote (conns (world s))"
    and "handlers s' = (handlers s)[p := (handlers s ! p)\<lparr>h_at := Leaving\<rparr>]"
  using assms
  by (auto simp: step_TakeDone_def set_status_def
           dest!: log_returning leave_returning in_loop_Some(1)
           split: option.splits if_splits)

lemma step_Remove_eff:
  assumes "step_Remove p s = Some s'"
  shows "p < length (handlers s)"
    and "heap (world s') = heap (world s)" and "chans (world s') = chans (world s)"
    and "conns (world s') = conns (world s)"
    and "msgs (world s') = msgs (world s)" and "sending s' = sending s"
    and "handlers s' = (handlers s)[p := (handlers s ! p)\<lparr>h_at := Returned\<rparr>]"
  using assms
  by (auto simp: step_Remove_def set_status_def deref_def
           dest!: remove_returning split: option.splits if_splits)

lemma chan_pop_pending: "chan_pop c = Some (v, c') \<Longrightarrow> pending c = v # pending c'"
  by (auto simp: chan_pop_def pending_def split: option.splits list.splits)

lemma step_TakeMsg_eff:
  assumes "step_TakeMsg p werr s = Some s'"
  shows "(\<exists>pr c cn k v c'. in_loop s p = Some (pr, c, cn, k) \<and> chan_pop c = Some (v, c') \<and>
           chans (world s') = (chans (world s))[ch pr := c'] \<and>
           ((werr = None \<and> conns (world s') = (conns (world s))[cn := k\<lparr>wrote := wrote k @ [v]\<rparr>] \<and>
             handlers s' = handlers s) \<or>
            (werr \<noteq> None \<and> map wrote (conns (world s')) = map wrote (conns (world s)) \<and>
             length (conns (world s')) = length (conns (world s)) \<and>
             handlers s' = (handlers s)[p := (handlers s ! p)\<lparr>h_at := Leaving\<rparr>]))) \<and>
         heap (world s') = heap (world s) \<and>
         msgs (world s') = msgs (world s) \<and> sending s' = sending s"
proof -
  from assms obtain pr c cn k where il: "in_loop s p = Some (pr, c, cn, k)"
    by (auto simp: step_TakeMsg_def split: option.splits)
  from assms il obtain v c' where b: "chan_pop c = Some (v, c')"
    by (cases "chan_pop c") (auto simp: step_TakeMsg_def)
  define w1 where "w1 = (world s)\<lparr>chans := (chans (world s))[ch pr := c']\<rparr>"
  have w1: "heap w1 = heap (world s)" "msgs w1 = msgs (world s)" "conns w1 = conns (world s)"
    "chans w1 = (chans (world s))[ch pr := c']"
    by (simp_all add: w1_def)
  show ?thesis
  proof (cases werr)
    case None
    with assms il b have "s' = s\<lparr>world := w1\<lparr>conns := (conns w1)[cn := k\<lparr>wrote := wrote k @ [v]\<rparr>]\<rparr>\<rparr>"
      by (simp add: step_TakeMsg_def w1_def Let_def)
    then show ?thesis using il b None by (simp add: w1)
  next
    case (Some err)
    with assms il b obtain w2 w3 where
      l2: "returning (log p ''Failed writing to connection: %s'' [err] w1) = Some ((), w2)"
      and l3: "returning (ServeHTTP_leave p cn w2) = Some ((), w3)"
      and s': "s' = set_status p Leaving (s\<lparr>world := w3\<rparr>)"
      by (auto simp: step_TakeMsg_def w1_def Let_def split: option.splits)
    note f2 = log_returning[OF l2] and f3 = leave_returning[OF l3]
    show ?thesis
      using il b Some f2 f3 by (simp add: s' set_status_def w1)
  qed
qed

lemma inv_storeD:
  assumes "inv_store s"
  shows "length (handlers s) = length (heap (world s))"
    and "\<And>p. p < length (heap (world s)) \<Longrightarrow> ch (heap (world s) ! p) < length (chans (world s))"
    and "distinct (map ch (heap (world s)))"
    and "\<And>p cn. p < length (handlers s) \<Longrightarrow> h_conn (handlers s ! p) = Some cn \<Longrightarrow>
                cn < length (conns (world s))"
    and "\<And>p q cn. p < length (handlers s) \<Longrightarrow> q < length (handlers s) \<Longrightarrow>
                h_conn (handlers s ! p) = Some cn \<Longrightarrow> h_conn (handlers s ! q) = Some cn \<Longrightarrow> p = q"
    and "\<And>p. p < length (handlers s) \<Longrightarrow> h_at (handlers s ! p) = Upgrading \<Longrightarrow>
                h_conn (handlers s ! p) = None"
  using assms unfolding inv_store_def by blast+

lemma inv_storeI:
  assumes "length (handlers s) = length (heap (world s))"
    and "\<And>p. p < length (heap (world s)) \<Longrightarrow> ch (heap (world s) ! p) < length (chans (world s))"
    and "distinct (map ch (heap (world s)))"
    and "\<And>p cn. p < length (handlers s) \<Longrightarrow> h_conn (handlers s ! p) = Some cn \<Longrightarrow>
                cn < length (conns (world s))"
    and "\<And>p q cn. p < length (handlers s) \<Longrightarrow> q < length (handlers s) \<Longrightarrow>
                h_conn (handlers s ! p) = Some cn \<Longrightarrow> h_conn (handlers s ! q) = Some cn \<Longrightarrow> p = q"
    and "\<And>p. p < length (handlers s) \<Longrightarrow> h_at (handlers s ! p) = Upgrading \<Longrightarrow>
                h_conn (handlers s ! p) = None"
  shows "inv_store s"
  unfolding inv_store_def using assms by blast

lemma same_shape_status:
  assumes "heap (world s') = heap (world s)"
    and "length (chans (world s')) = length (chans (world s))"
    and "length (conns (world s')) = length (conns (world s))"
    and "handlers s' = (handlers s)[p := (handlers s ! p)\<lparr>h_at := st\<rparr>]"
    and "st \<noteq> Upgrading"
  shows "same_shape s s'"
  unfolding same_shape_def using assms
  by (cases "p < length (handlers s)") (auto simp: map_list_update_same nth_list_update split: if_splits)

lemma same_shape_handlers:
  assumes "heap (world s') = heap (world s)"
    and "length (chans (world s')) = length (chans (world s))"
    and "length (conns (world s')) = length (conns (world s))"
    and "handlers s' = handlers s"
  shows "same_shape s s'"
  unfolding same_shape_def using assms by simp

lemma inv_store_Accept:
  assumes i: "inv_store s" and st: "step_Accept lim rw r s = Some s'"
  shows "inv_store s'"
proof -
  note d = inv_storeD[OF i]
  from step_Accept_eff[OF st] show ?thesis
  proof
    assume "s' = s" with i show ?thesis by simp
  next
    assume e: "heap (world s') = heap (world s) @ [\<lparr>ch = length (chans (world s)), addr = RemoteAddr r\<rparr>] \<and>
          chans (world s') = chans (world s) @
             [\<lparr>cap = nat (buffer (beam (world s))), buf = [], recv_parked = False, handed = None\<rparr>] \<and>
          conns (world s') = conns (world s) \<and> msgs (world s') = msgs (world s) \<and>
          handlers s' = handlers s @ [\<lparr>h_rw = rw, h_conn = None, h_at = Upgrading\<rparr>] \<and>
          sending s' = sending s"
    then have hp: "heap (world s') = heap (world s) @ [\<lparr>ch = length (chans (world s)), addr = RemoteAddr r\<rparr>]"
      and cs: "length (chans (world s')) = Suc (length (chans (world s)))"
      and ks: "conns (world s') = conns (world s)"
      and hs: "handlers s' = handlers s @ [\<lparr>h_rw = rw, h_conn = None, h_at = Upgrading\<rparr>]"
      by simp_all
    have hc: "\<And>p. p < length (handlers s') \<Longrightarrow>
        h_conn (handlers s' ! p) = (if p < length (handlers s) then h_conn (handlers s ! p) else None)"
      by (simp add: hs nth_append)
    have bound: "\<forall>x\<in>set (map ch (heap (world s))). x < length (chans (world s))"
      using d(2) by (auto simp: in_set_conv_nth)
    show ?thesis
    proof (rule inv_storeI)
      show "length (handlers s') = length (heap (world s'))" by (simp add: hs hp d(1))
      show "\<And>p. p < length (heap (world s')) \<Longrightarrow> ch (heap (world s') ! p) < length (chans (world s'))"
        using d(2) by (auto simp: hp cs nth_append less_Suc_eq)
      show "distinct (map ch (heap (world s')))"
        using d(3) bound by (auto simp: hp)
      show "\<And>p cn. p < length (handlers s') \<Longrightarrow> h_conn (handlers s' ! p) = Some cn \<Longrightarrow>
                cn < length (conns (world s'))"
        using d(4) by (simp add: hc ks split: if_splits)
      show "\<And>p q cn. p < length (handlers s') \<Longrightarrow> q < length (handlers s') \<Longrightarrow>
                h_conn (handlers s' ! p) = Some cn \<Longrightarrow> h_conn (handlers s' ! q) = Some cn \<Longrightarrow> p = q"
        using d(5) by (simp add: hc split: if_splits)
      show "\<And>p. p < length (handlers s') \<Longrightarrow> h_at (handlers s' ! p) = Upgrading \<Longrightarrow>
                h_conn (handlers s' ! p) = None"
        using d(6) by (auto simp: hs nth_append)
    qed
  qed
qed

lemma inv_store_UpgradeAnswer:
  assumes i: "inv_store s" and st: "step_UpgradeAnswer p replies answer s = Some s'"
  shows "inv_store s'"
proof -
  note d = inv_storeD[OF i]
  note e = step_UpgradeAnswer_eff[OF st]
  from e(7) show ?thesis
  proof
    assume a: "conns (world s') = conns (world s) \<and>
          handlers s' = (handlers s)[p := (handlers s ! p)\<lparr>h_at := Leaving\<rparr>]"
    have "same_shape s s'"
      by (rule same_shape_status[where st = Leaving]) (simp_all add: e a)
    with i show ?thesis by (rule inv_store_same_shape)
  next
    assume a: "conns (world s') = conns (world s) @ [\<lparr>wrote = [], closed = False, done_closed = False\<rparr>] \<and>
          handlers s' = (handlers s)[p := (handlers s ! p)\<lparr>h_conn := Some (length (conns (world s))),
                                                           h_at := InLoop\<rparr>]"
    then have ks: "length (conns (world s')) = Suc (length (conns (world s)))"
      and hs: "handlers s' = (handlers s)[p := (handlers s ! p)\<lparr>h_conn := Some (length (conns (world s))),
                                                           h_at := InLoop\<rparr>]"
      by simp_all
    have len: "length (handlers s') = length (handlers s)" by (simp add: hs)
    have hc: "\<And>q. q < length (handlers s) \<Longrightarrow>
        h_conn (handlers s' ! q) = (if q = p then Some (length (conns (world s))) else h_conn (handlers s ! q))"
      by (simp add: hs nth_list_update)
    have ha: "\<And>q. q < length (handlers s) \<Longrightarrow>
        h_at (handlers s' ! q) = (if q = p then InLoop else h_at (handlers s ! q))"
      by (simp add: hs nth_list_update)
    show ?thesis
    proof (rule inv_storeI)
      show "length (handlers s') = length (heap (world s'))" by (simp add: len e d(1))
      show "\<And>q. q < length (heap (world s')) \<Longrightarrow> ch (heap (world s') ! q) < length (chans (world s'))"
        using d(2) by (simp add: e)
      show "distinct (map ch (heap (world s')))" using d(3) by (simp add: e)
      show "\<And>q cn. q < length (handlers s') \<Longrightarrow> h_conn (handlers s' ! q) = Some cn \<Longrightarrow>
                cn < length (conns (world s'))"
        using d(4) by (auto simp: len hc ks less_Suc_eq split: if_splits)
      show "\<And>q q' cn. q < length (handlers s') \<Longrightarrow> q' < length (handlers s') \<Longrightarrow>
                h_conn (handlers s' ! q) = Some cn \<Longrightarrow> h_conn (handlers s' ! q') = Some cn \<Longrightarrow> q = q'"
      proof -
        fix q q' cn
        assume q: "q < length (handlers s')" "q' < length (handlers s')"
          and c: "h_conn (handlers s' ! q) = Some cn" "h_conn (handlers s' ! q') = Some cn"
        show "q = q'"
        proof (cases "q = p")
          case True
          then have cn: "cn = length (conns (world s))" using c(1) q(1) by (simp add: len hc)
          show ?thesis
          proof (rule ccontr)
            assume "q \<noteq> q'"
            then have "h_conn (handlers s ! q') = Some cn" using c(2) q(2) True by (simp add: len hc)
            then have "cn < length (conns (world s))" using d(4) q(2) by (simp add: len)
            with cn show False by simp
          qed
        next
          case False
          then have c1: "h_conn (handlers s ! q) = Some cn" using c(1) q(1) by (simp add: len hc)
          then have lt: "cn < length (conns (world s))" using d(4) q(1) by (simp add: len)
          have "q' \<noteq> p"
          proof
            assume "q' = p"
            then have "cn = length (conns (world s))" using c(2) q(2) by (simp add: len hc)
            with lt show False by simp
          qed
          then have "h_conn (handlers s ! q') = Some cn" using c(2) q(2) by (simp add: len hc)
          with c1 q d(5) show ?thesis by (simp add: len)
        qed
      qed
      show "\<And>q. q < length (handlers s') \<Longrightarrow> h_at (handlers s' ! q) = Upgrading \<Longrightarrow>
                h_conn (handlers s' ! q) = None"
        using d(6) by (auto simp: len hc ha split: if_splits)
    qed
  qed
qed

lemma step_inv_store:
  assumes i: "inv_store s" and st: "step lim marshal prepare e s = Some s'"
  shows "inv_store s'"
proof (cases e)
  case (SendBegin ks d)
  with st have x: "step_SendBegin marshal prepare ks d s = Some s'" by simp
  have "same_shape s s'"
    by (rule same_shape_handlers) (simp_all add: step_SendBegin_eff[OF x])
  with i show ?thesis by (rule inv_store_same_shape)
next
  case SendPush
  with st have x: "step_SendPush s = Some s'" by simp
  from step_SendPush_eff(1)[OF x] have "length (chans (world s')) = length (chans (world s))"
    by (auto split: if_splits)
  then have "same_shape s s'"
    by (intro same_shape_handlers) (simp_all add: step_SendPush_eff[OF x])
  with i show ?thesis by (rule inv_store_same_shape)
next
  case SendEnd
  with st have x: "step_SendEnd s = Some s'" by simp
  have "same_shape s s'"
    by (rule same_shape_handlers) (simp_all add: step_SendEnd_eff[OF x])
  with i show ?thesis by (rule inv_store_same_shape)
next
  case (Accept rw r)
  with st have x: "step_Accept lim rw r s = Some s'" by simp
  show ?thesis by (rule inv_store_Accept[OF i x])
next
  case (UpgradeAnswer p replies answer)
  with st have x: "step_UpgradeAnswer p replies answer s = Some s'" by simp
  show ?thesis by (rule inv_store_UpgradeAnswer[OF i x])
next
  case (Park p)
  with st have x: "step_Park p s = Some s'" by simp
  from step_Park_eff(1)[OF x] have "length (chans (world s')) = length (chans (world s))" by auto
  then have "same_shape s s'"
    by (intro same_shape_handlers) (simp_all add: step_Park_eff[OF x])
  with i show ?thesis by (rule inv_store_same_shape)
next
  case (TakeMsg p werr)
  with st have x: "step_TakeMsg p werr s = Some s'" by simp
  note e = step_TakeMsg_eff[OF x]
  from e have hp: "heap (world s') = heap (world s)" by blast
  from e have cs: "length (chans (world s')) = length (chans (world s))" by auto
  from e have ks: "length (conns (world s')) = length (conns (world s))" by auto
  from e have hs: "handlers s' = handlers s \<or> handlers s' = (handlers s)[p := (handlers s ! p)\<lparr>h_at := Leaving\<rparr>]"
    by auto
  from hs have "same_shape s s'"
  proof
    assume "handlers s' = handlers s"
    then show ?thesis by (intro same_shape_handlers) (simp_all add: hp cs ks)
  next
    assume "handlers s' = (handlers s)[p := (handlers s ! p)\<lparr>h_at := Leaving\<rparr>]"
    then show ?thesis by (intro same_shape_status[where st = Leaving]) (simp_all add: hp cs ks)
  qed
  with i show ?thesis by (rule inv_store_same_shape)
next
  case (ClientGone p)
  with st have x: "step_ClientGone p s = Some s'" by simp
  from step_ClientGone_eff(1)[OF x] have "length (conns (world s')) = length (conns (world s))" by auto
  then have "same_shape s s'"
    by (intro same_shape_handlers) (simp_all add: step_ClientGone_eff[OF x])
  with i show ?thesis by (rule inv_store_same_shape)
next
  case (TakeDone p)
  with st have x: "step_TakeDone p s = Some s'" by simp
  have "same_shape s s'"
    by (rule same_shape_status[where st = Leaving]) (simp_all add: step_TakeDone_eff[OF x])
  with i show ?thesis by (rule inv_store_same_shape)
next
  case (Remove p)
  with st have x: "step_Remove p s = Some s'" by simp
  have "same_shape s s'"
    by (rule same_shape_status[where st = Returned]) (simp_all add: step_Remove_eff[OF x])
  with i show ?thesis by (rule inv_store_same_shape)
qed

text \<open>The handler of \<open>p\<close> has not left its loop.\<close>

definition live :: "('u, 'pm) sys \<Rightarrow> pear_ptr \<Rightarrow> bool" where
  "live s p =
     (case deref (handlers s) p of
        None \<Rightarrow> True
      | Some h \<Rightarrow> h_at h = Upgrading \<or> h_at h = InLoop)"

lemma live_nth:
  "p < length (handlers s) \<Longrightarrow>
   live s p = (h_at (handlers s ! p) = Upgrading \<or> h_at (handlers s ! p) = InLoop)"
  by (simp add: live_def deref_def)

lemma live_beyond: "\<not> p < length (handlers s) \<Longrightarrow> live s p"
  by (simp add: live_def deref_def)

lemma live_same: "handlers s' = handlers s \<Longrightarrow> live s' p \<Longrightarrow> live s p"
  by (simp add: live_def)

lemma live_status:
  assumes hs: "handlers s' = (handlers s)[q := (handlers s ! q)\<lparr>h_at := st\<rparr>]"
    and st: "st = Leaving \<or> st = Returned" and l: "live s' p"
  shows "live s p \<and> (q < length (handlers s) \<longrightarrow> p \<noteq> q)"
proof (cases "q < length (handlers s)")
  case True
  note q = this
  show ?thesis
  proof (cases "p = q")
    case True
    then have "h_at (handlers s' ! p) = st" using q by (simp add: hs)
    moreover have "p < length (handlers s')" using True q by (simp add: hs)
    ultimately have "\<not> live s' p" using st by (auto simp: live_nth)
    with l show ?thesis by simp
  next
    case False
    then have "deref (handlers s') p = deref (handlers s) p" by (simp add: hs deref_def)
    then have "live s p" using l by (simp add: live_def)
    with False show ?thesis by simp
  qed
next
  case False
  then have "handlers s' = handlers s" by (simp add: hs list_update_beyond)
  with l False show ?thesis by (simp add: live_def)
qed

lemma written_conn:
  "p < length (handlers s) \<Longrightarrow> h_conn (handlers s ! p) = Some cn \<Longrightarrow>
   cn < length (conns (world s)) \<Longrightarrow> written s p = wrote (conns (world s) ! cn)"
  by (simp add: written_def deref_def)

lemma written_noconn:
  "p < length (handlers s) \<Longrightarrow> h_conn (handlers s ! p) = None \<Longrightarrow> written s p = []"
  by (simp add: written_def deref_def)

lemma written_beyond: "\<not> p < length (handlers s) \<Longrightarrow> written s p = []"
  by (simp add: written_def deref_def)

lemma queue_chan:
  "p < length (heap w) \<Longrightarrow> ch (heap w ! p) < length (chans w) \<Longrightarrow>
   queue_of w p = pending (chans w ! ch (heap w ! p))"
  by (simp add: queue_of_def pear_chan_def deref_def)

lemma queue_beyond: "\<not> p < length (heap w) \<Longrightarrow> queue_of w p = []"
  by (simp add: queue_of_def pear_chan_def deref_def)

lemma written_same:
  assumes "map h_conn (handlers s') = map h_conn (handlers s)"
    and "map wrote (conns (world s')) = map wrote (conns (world s))"
  shows "written s' p = written s p"
proof -
  have l: "length (handlers s') = length (handlers s)" using assms(1) by (metis length_map)
  have k: "length (conns (world s')) = length (conns (world s))" using assms(2) by (metis length_map)
  have hc: "p < length (handlers s) \<Longrightarrow> h_conn (handlers s' ! p) = h_conn (handlers s ! p)"
    using assms(1) by (rule map_eq_nth)
  have wr: "\<And>cn. cn < length (conns (world s)) \<Longrightarrow>
              wrote (conns (world s') ! cn) = wrote (conns (world s) ! cn)"
    using assms(2) by (rule map_eq_nth)
  show ?thesis
    by (auto simp: written_def deref_def l k hc wr split: option.splits)
qed

lemma queue_same:
  assumes "heap w' = heap w" and "map pending (chans w') = map pending (chans w)"
  shows "queue_of w' p = queue_of w p"
proof -
  have k: "length (chans w') = length (chans w)" using assms(2) by (metis length_map)
  have b: "\<And>c. c < length (chans w) \<Longrightarrow> pending (chans w' ! c) = pending (chans w ! c)"
    using assms(2) by (rule map_eq_nth)
  show ?thesis
    by (auto simp: queue_of_def pear_chan_def deref_def assms(1) k b split: option.splits)
qed

lemma queue_other:
  assumes i: "inv_store s" and h: "heap (world s') = heap (world s)"
    and c: "chans (world s') = (chans (world s))[ch (heap (world s) ! q) := x]"
    and q: "q < length (heap (world s))" and pq: "p \<noteq> q"
  shows "queue_of (world s') p = queue_of (world s) p"
proof (cases "p < length (heap (world s))")
  case True
  note d = inv_storeD[OF i]
  have ne: "ch (heap (world s) ! p) \<noteq> ch (heap (world s) ! q)"
    using d(3) True q pq by (simp add: distinct_conv_nth)
  have v: "ch (heap (world s) ! p) < length (chans (world s))" using d(2) True by simp
  show ?thesis
    using True v ne by (simp add: queue_chan h c)
next
  case False
  then show ?thesis by (simp add: queue_beyond h)
qed

lemma written_other:
  assumes i: "inv_store s" and hs: "handlers s' = handlers s"
    and c: "conns (world s') = (conns (world s))[cn := x]"
    and q: "q < length (handlers s)" "h_conn (handlers s ! q) = Some cn" and pq: "p \<noteq> q"
  shows "written s' p = written s p"
proof (cases "p < length (handlers s)")
  case True
  note d = inv_storeD[OF i]
  show ?thesis
  proof (cases "h_conn (handlers s ! p)")
    case None
    then show ?thesis using True by (simp add: written_noconn hs)
  next
    case (Some cn')
    have ne: "cn' \<noteq> cn" using d(5)[OF True q(1) Some] q(2) pq by auto
    have v: "cn' < length (conns (world s))" using d(4)[OF True Some] .
    show ?thesis using True Some v ne by (simp add: written_conn hs c)
  qed
next
  case False
  then show ?thesis by (simp add: written_beyond hs)
qed

lemma step_live:
  assumes st: "step lim marshal prepare e s = Some s'" and l: "live s' p"
  shows "live s p"
proof (cases e)
  case (SendBegin ks d)
  with st have x: "step_SendBegin marshal prepare ks d s = Some s'" by simp
  show ?thesis by (rule live_same[OF step_SendBegin_eff(4)[OF x] l])
next
  case SendPush
  with st have x: "step_SendPush s = Some s'" by simp
  show ?thesis by (rule live_same[OF step_SendPush_eff(4)[OF x] l])
next
  case SendEnd
  with st have x: "step_SendEnd s = Some s'" by simp
  show ?thesis by (rule live_same[OF step_SendEnd_eff(4)[OF x] l])
next
  case (Accept rw r)
  with st have x: "step_Accept lim rw r s = Some s'" by simp
  from step_Accept_eff[OF x]
  have "s' = s \<or> handlers s' = handlers s @ [\<lparr>h_rw = rw, h_conn = None, h_at = Upgrading\<rparr>]"
    by blast
  then show ?thesis
  proof
    assume "s' = s" with l show ?thesis by simp
  next
    assume hs: "handlers s' = handlers s @ [\<lparr>h_rw = rw, h_conn = None, h_at = Upgrading\<rparr>]"
    show ?thesis
    proof (cases "p < length (handlers s)")
      case True
      then have "deref (handlers s') p = deref (handlers s) p"
        by (simp add: deref_def hs nth_append)
      with l show ?thesis by (simp add: live_def)
    next
      case False
      then show ?thesis by (rule live_beyond)
    qed
  qed
next
  case (UpgradeAnswer q replies answer)
  with st have x: "step_UpgradeAnswer q replies answer s = Some s'" by simp
  note e = step_UpgradeAnswer_eff[OF x]
  show ?thesis
  proof (cases "p = q")
    case True
    have "live s q" using e(2) by (simp add: live_nth[OF e(1)])
    with True show ?thesis by simp
  next
    case False
    from e(7) have "handlers s' ! p = handlers s ! p \<and> length (handlers s') = length (handlers s)"
      using False by auto
    then have "deref (handlers s') p = deref (handlers s) p" by (simp add: deref_def)
    with l show ?thesis by (simp add: live_def)
  qed
next
  case (Park q)
  with st have x: "step_Park q s = Some s'" by simp
  show ?thesis by (rule live_same[OF step_Park_eff(6)[OF x] l])
next
  case (TakeMsg q werr)
  with st have x: "step_TakeMsg q werr s = Some s'" by simp
  from step_TakeMsg_eff[OF x]
  have "handlers s' = handlers s \<or> handlers s' = (handlers s)[q := (handlers s ! q)\<lparr>h_at := Leaving\<rparr>]"
    by auto
  then show ?thesis
  proof
    assume "handlers s' = handlers s"
    then show ?thesis using l by (rule live_same)
  next
    assume a: "handlers s' = (handlers s)[q := (handlers s ! q)\<lparr>h_at := Leaving\<rparr>]"
    have "Leaving = Leaving \<or> Leaving = Returned" by simp
    from live_status[OF a this l] show ?thesis by blast
  qed
next
  case (ClientGone q)
  with st have x: "step_ClientGone q s = Some s'" by simp
  show ?thesis by (rule live_same[OF step_ClientGone_eff(6)[OF x] l])
next
  case (TakeDone q)
  with st have x: "step_TakeDone q s = Some s'" by simp
  have "Leaving = Leaving \<or> Leaving = Returned" by simp
  from live_status[OF step_TakeDone_eff(8)[OF x] this l] show ?thesis by blast
next
  case (Remove q)
  with st have x: "step_Remove q s = Some s'" by simp
  have "Returned = Leaving \<or> Returned = Returned" by simp
  from live_status[OF step_Remove_eff(7)[OF x] this l] show ?thesis by blast
qed

text \<open>What the handler of \<open>p\<close> has written, followed by what its channel holds for it.\<close>

definition flow :: "('u, 'pm) sys \<Rightarrow> pear_ptr \<Rightarrow> msg_ptr list" where
  "flow s p = written s p @ queue_of (world s) p"

lemma flow_unchanged:
  assumes "heap (world s') = heap (world s)"
    and "map pending (chans (world s')) = map pending (chans (world s))"
    and "map wrote (conns (world s')) = map wrote (conns (world s))"
    and "map h_conn (handlers s') = map h_conn (handlers s)"
  shows "flow s' p = flow s p"
  unfolding flow_def using written_same[OF assms(4,3)] queue_same[OF assms(1,2)] by simp

lemma pushed_not_SendPush: "e \<noteq> SendPush \<Longrightarrow> pushed e s p = []"
  by (cases e) (simp_all add: pushed_def)

lemma flow_SendPush:
  assumes i: "inv_store s" and x: "step_SendPush s = Some s'"
  shows "flow s' p = flow s p @ pushed (SendPush :: 'd event) s p"
proof -
  note e = step_SendPush_eff[OF x]
  from e(1) obtain msg q qs failed where sd: "sending s = Some (msg, q # qs, failed)"
    and cs: "chans (world s') =
             (if pear_ready (world s) q
              then (chans (world s))[ch (heap (world s) ! q) :=
                      chan_push msg (chans (world s) ! ch (heap (world s) ! q))]
              else chans (world s))"
    by blast
  have wr: "written s' p = written s p"
    by (rule written_same) (simp_all add: e(3) e(4))
  have pu: "pushed (SendPush :: 'd event) s p = (if q = p \<and> pear_ready (world s) p then [msg] else [])"
    by (simp add: pushed_def sd)
  show ?thesis
  proof (cases "pear_ready (world s) q")
    case False
    then have "queue_of (world s') p = queue_of (world s) p"
      by (intro queue_same) (simp_all add: e(2) cs)
    with wr pu False show ?thesis by (cases "q = p") (simp_all add: flow_def)
  next
    case True
    then have q: "q < length (heap (world s))" "ch (heap (world s) ! q) < length (chans (world s))"
      by (auto simp: pear_ready_def pear_chan_def deref_def split: option.splits if_splits)
    have cs': "chans (world s') = (chans (world s))[ch (heap (world s) ! q) :=
                      chan_push msg (chans (world s) ! ch (heap (world s) ! q))]"
      using cs True by simp
    show ?thesis
    proof (cases "q = p")
      case True
      have "queue_of (world s') p = queue_of (world s) p @ [msg]"
        using q True by (simp add: queue_chan e(2) cs' pending_chan_push)
      with wr pu True \<open>pear_ready (world s) q\<close> show ?thesis by (simp add: flow_def)
    next
      case False
      then have "p \<noteq> q" by simp
      from queue_other[OF i e(2) cs' q(1) this]
      show ?thesis using wr pu False by (simp add: flow_def)
    qed
  qed
qed

lemma flow_Accept:
  assumes i: "inv_store s" and x: "step_Accept lim rw r s = Some s'"
  shows "flow s' p = flow s p"
proof -
  note d = inv_storeD[OF i]
  from step_Accept_eff[OF x] show ?thesis
  proof
    assume "s' = s" then show ?thesis by simp
  next
    assume e: "heap (world s') = heap (world s) @ [\<lparr>ch = length (chans (world s)), addr = RemoteAddr r\<rparr>] \<and>
          chans (world s') = chans (world s) @
             [\<lparr>cap = nat (buffer (beam (world s))), buf = [], recv_parked = False, handed = None\<rparr>] \<and>
          conns (world s') = conns (world s) \<and> msgs (world s') = msgs (world s) \<and>
          handlers s' = handlers s @ [\<lparr>h_rw = rw, h_conn = None, h_at = Upgrading\<rparr>] \<and>
          sending s' = sending s"
    then have hp: "heap (world s') = heap (world s) @ [\<lparr>ch = length (chans (world s)), addr = RemoteAddr r\<rparr>]"
      and cs: "chans (world s') = chans (world s) @
             [\<lparr>cap = nat (buffer (beam (world s))), buf = [], recv_parked = False, handed = None\<rparr>]"
      and ks: "conns (world s') = conns (world s)"
      and hs: "handlers s' = handlers s @ [\<lparr>h_rw = rw, h_conn = None, h_at = Upgrading\<rparr>]"
      by simp_all
    consider (old) "p < length (heap (world s))" | (new) "p = length (heap (world s))"
      | (beyond) "length (heap (world s)) < p" by linarith
    then show ?thesis
    proof cases
      case old
      then have c: "ch (heap (world s) ! p) < length (chans (world s))" using d(2) by simp
      have "queue_of (world s') p = queue_of (world s) p"
        using old c by (simp add: queue_of_def pear_chan_def deref_def hp cs nth_append)
      moreover have "written s' p = written s p"
        using old d(1) by (simp add: written_def deref_def hs ks nth_append split: option.splits)
      ultimately show ?thesis by (simp add: flow_def)
    next
      case new
      have "queue_of (world s') p = []"
        using new by (simp add: queue_of_def pending_def pear_chan_def deref_def hp cs nth_append)
      moreover have "queue_of (world s) p = []" using new by (simp add: queue_beyond)
      moreover have "written s' p = []"
        using new d(1) by (simp add: written_def deref_def hs nth_append)
      moreover have "written s p = []" using new d(1) by (simp add: written_beyond)
      ultimately show ?thesis by (simp add: flow_def)
    next
      case beyond
      then have "queue_of (world s') p = []" "queue_of (world s) p = []"
        "written s' p = []" "written s p = []"
        using d(1) by (simp_all add: queue_beyond written_beyond hp hs)
      then show ?thesis by (simp add: flow_def)
    qed
  qed
qed

lemma flow_UpgradeAnswer:
  assumes i: "inv_store s" and x: "step_UpgradeAnswer q replies answer s = Some s'"
  shows "flow s' p = flow s p"
proof -
  note d = inv_storeD[OF i]
  note e = step_UpgradeAnswer_eff[OF x]
  have qu: "queue_of (world s') p = queue_of (world s) p"
    by (rule queue_same) (simp_all add: e(3) e(4))
  from e(7) have "written s' p = written s p"
  proof
    assume a: "conns (world s') = conns (world s) \<and>
          handlers s' = (handlers s)[q := (handlers s ! q)\<lparr>h_at := Leaving\<rparr>]"
    show ?thesis
      by (rule written_same) (simp_all add: a map_list_update_same)
  next
    assume a: "conns (world s') = conns (world s) @ [\<lparr>wrote = [], closed = False, done_closed = False\<rparr>] \<and>
          handlers s' = (handlers s)[q := (handlers s ! q)\<lparr>h_conn := Some (length (conns (world s))),
                                                           h_at := InLoop\<rparr>]"
    then have ks: "conns (world s') = conns (world s) @ [\<lparr>wrote = [], closed = False, done_closed = False\<rparr>]"
      and hs: "handlers s' = (handlers s)[q := (handlers s ! q)\<lparr>h_conn := Some (length (conns (world s))),
                                                           h_at := InLoop\<rparr>]"
      by simp_all
    have len: "length (handlers s') = length (handlers s)" by (simp add: hs)
    show ?thesis
    proof (cases "p < length (handlers s)")
      case False
      then show ?thesis by (simp add: written_beyond len)
    next
      case True
      show ?thesis
      proof (cases "p = q")
        case True
        have "h_conn (handlers s ! q) = None" using d(6)[OF e(1) e(2)] .
        then have w0: "written s q = []" using e(1) by (simp add: written_noconn)
        have "h_conn (handlers s' ! q) = Some (length (conns (world s)))"
          using e(1) by (simp add: hs)
        then have "written s' q = wrote (conns (world s') ! length (conns (world s)))"
          using e(1) by (intro written_conn) (simp_all add: len ks)
        then have "written s' q = []" by (simp add: ks)
        with w0 True show ?thesis by simp
      next
        case False
        then have same: "handlers s' ! p = handlers s ! p" by (simp add: hs)
        show ?thesis
        proof (cases "h_conn (handlers s ! p)")
          case None
          then show ?thesis using True same by (simp add: written_noconn len)
        next
          case (Some cn)
          have v: "cn < length (conns (world s))" using d(4)[OF True Some] .
          have "written s' p = wrote (conns (world s') ! cn)"
            using True Some same v by (intro written_conn) (simp_all add: len ks)
          moreover have "written s p = wrote (conns (world s) ! cn)"
            using True Some v by (intro written_conn)
          ultimately show ?thesis using v by (simp add: ks nth_append)
        qed
      qed
    qed
  qed
  with qu show ?thesis by (simp add: flow_def)
qed

lemma flow_TakeMsg:
  assumes i: "inv_store s" and x: "step_TakeMsg q werr s = Some s'" and l: "live s' p"
  shows "flow s' p = flow s p"
proof -
  note d = inv_storeD[OF i]
  from step_TakeMsg_eff[OF x] obtain pr c cn k v c' where
    il: "in_loop s q = Some (pr, c, cn, k)" and pop: "chan_pop c = Some (v, c')"
    and cs: "chans (world s') = (chans (world s))[ch pr := c']"
    and alt: "(werr = None \<and> conns (world s') = (conns (world s))[cn := k\<lparr>wrote := wrote k @ [v]\<rparr>] \<and>
             handlers s' = handlers s) \<or>
            (werr \<noteq> None \<and> map wrote (conns (world s')) = map wrote (conns (world s)) \<and>
             length (conns (world s')) = length (conns (world s)) \<and>
             handlers s' = (handlers s)[q := (handlers s ! q)\<lparr>h_at := Leaving\<rparr>])"
    and hp: "heap (world s') = heap (world s)"
    by blast
  note f = in_loop_Some[OF il]
  have cs': "chans (world s') = (chans (world s))[ch (heap (world s) ! q) := c']"
    using cs f(5) by simp
  show ?thesis
  proof (cases "p = q")
    case False
    have qu: "queue_of (world s') p = queue_of (world s) p"
      by (rule queue_other[OF i hp cs' f(4) False])
    from alt have "written s' p = written s p"
    proof
      assume a: "werr = None \<and> conns (world s') = (conns (world s))[cn := k\<lparr>wrote := wrote k @ [v]\<rparr>] \<and>
             handlers s' = handlers s"
      then have a1: "handlers s' = handlers s"
        and a2: "conns (world s') = (conns (world s))[cn := k\<lparr>wrote := wrote k @ [v]\<rparr>]" by simp_all
      show ?thesis by (rule written_other[OF i a1 a2 f(1) f(3) False])
    next
      assume a: "werr \<noteq> None \<and> map wrote (conns (world s')) = map wrote (conns (world s)) \<and>
             length (conns (world s')) = length (conns (world s)) \<and>
             handlers s' = (handlers s)[q := (handlers s ! q)\<lparr>h_at := Leaving\<rparr>]"
      show ?thesis
        by (rule written_same) (simp_all add: a map_list_update_same)
    qed
    with qu show ?thesis by (simp add: flow_def)
  next
    case True
    have none: "werr = None"
    proof (rule ccontr)
      assume "werr \<noteq> None"
      with alt have a: "handlers s' = (handlers s)[q := (handlers s ! q)\<lparr>h_at := Leaving\<rparr>]" by simp
      have "Leaving = Leaving \<or> Leaving = Returned" by simp
      from live_status[OF a this l] f(1) True show False by simp
    qed
    with alt have a1: "handlers s' = handlers s"
      and a2: "conns (world s') = (conns (world s))[cn := k\<lparr>wrote := wrote k @ [v]\<rparr>]" by simp_all
    have w0: "written s q = wrote k" using f by (simp add: written_conn)
    have "written s' q = wrote (conns (world s') ! cn)"
      using f by (intro written_conn) (simp_all add: a1 a2)
    then have w1: "written s' q = wrote k @ [v]" using f(8) by (simp add: a2)
    have q0: "queue_of (world s) q = pending c" using f by (simp add: queue_chan)
    have "queue_of (world s') q = pending (chans (world s') ! ch (heap (world s') ! q))"
      using f by (intro queue_chan) (simp_all add: hp cs)
    then have q1: "queue_of (world s') q = pending c'" using f by (simp add: hp cs)
    show ?thesis
      using True w0 w1 q0 q1 chan_pop_pending[OF pop] by (simp add: flow_def)
  qed
qed

lemma pending_parked: "pending (c\<lparr>recv_parked := b\<rparr>) = pending c"
  by (simp add: pending_def)

lemma step_flow:
  assumes i: "inv_store s" and st: "step lim marshal prepare e s = Some s'" and l: "live s' p"
  shows "flow s' p = flow s p @ pushed e s p"
proof (cases e)
  case (SendBegin ks d)
  with st have x: "step_SendBegin marshal prepare ks d s = Some s'" by simp
  have "flow s' p = flow s p"
    by (rule flow_unchanged) (simp_all add: step_SendBegin_eff(1-4)[OF x])
  then show ?thesis using SendBegin by (simp add: pushed_not_SendPush)
next
  case SendPush
  with st have x: "step_SendPush s = Some s'" by simp
  show ?thesis unfolding SendPush by (rule flow_SendPush[OF i x])
next
  case SendEnd
  with st have x: "step_SendEnd s = Some s'" by simp
  have "flow s' p = flow s p"
    by (rule flow_unchanged) (simp_all add: step_SendEnd_eff(1-4)[OF x])
  then show ?thesis using SendEnd by (simp add: pushed_not_SendPush)
next
  case (Accept rw r)
  with st have x: "step_Accept lim rw r s = Some s'" by simp
  show ?thesis using flow_Accept[OF i x] Accept by (simp add: pushed_not_SendPush)
next
  case (UpgradeAnswer q replies answer)
  with st have x: "step_UpgradeAnswer q replies answer s = Some s'" by simp
  show ?thesis using flow_UpgradeAnswer[OF i x] UpgradeAnswer by (simp add: pushed_not_SendPush)
next
  case (Park q)
  with st have x: "step_Park q s = Some s'" by simp
  from step_Park_eff(1)[OF x] obtain pr c cn k where il: "in_loop s q = Some (pr, c, cn, k)"
    and cs: "chans (world s') = (chans (world s))[ch pr := c\<lparr>recv_parked := True\<rparr>]" by blast
  have "map pending (chans (world s')) = map pending (chans (world s))"
    unfolding cs by (rule map_list_update_same) (simp add: pending_parked in_loop_Some(7)[OF il])
  then have "flow s' p = flow s p"
    by (intro flow_unchanged) (simp_all add: step_Park_eff(2,3,6)[OF x])
  then show ?thesis using Park by (simp add: pushed_not_SendPush)
next
  case (TakeMsg q werr)
  with st have x: "step_TakeMsg q werr s = Some s'" by simp
  show ?thesis using flow_TakeMsg[OF i x l] TakeMsg by (simp add: pushed_not_SendPush)
next
  case (ClientGone q)
  with st have x: "step_ClientGone q s = Some s'" by simp
  from step_ClientGone_eff(1)[OF x] obtain pr c cn k where il: "in_loop s q = Some (pr, c, cn, k)"
    and cs: "chans (world s') = (chans (world s))[ch pr := c\<lparr>recv_parked := False\<rparr>]"
    and ks: "conns (world s') = (conns (world s))[cn := k\<lparr>done_closed := True\<rparr>]" by blast
  have mw: "map wrote (conns (world s')) = map wrote (conns (world s))"
    unfolding ks by (rule map_list_update_same) (simp add: in_loop_Some(9)[OF il])
  have mp: "map pending (chans (world s')) = map pending (chans (world s))"
    unfolding cs by (rule map_list_update_same) (simp add: pending_parked in_loop_Some(7)[OF il])
  have "flow s' p = flow s p"
    by (rule flow_unchanged) (simp_all add: mw mp step_ClientGone_eff(2,6)[OF x])
  then show ?thesis using ClientGone by (simp add: pushed_not_SendPush)
next
  case (TakeDone q)
  with st have x: "step_TakeDone q s = Some s'" by simp
  note e = step_TakeDone_eff[OF x]
  have "flow s' p = flow s p"
    by (rule flow_unchanged) (simp_all add: e(2) e(3) e(7) e(8) map_list_update_same)
  then show ?thesis using TakeDone by (simp add: pushed_not_SendPush)
next
  case (Remove q)
  with st have x: "step_Remove q s = Some s'" by simp
  note e = step_Remove_eff[OF x]
  have "flow s' p = flow s p"
    by (rule flow_unchanged) (simp_all add: e(2) e(3) e(4) e(7) map_list_update_same)
  then show ?thesis using Remove by (simp add: pushed_not_SendPush)
qed

lemma written_Accept:
  assumes i: "inv_store s" and x: "step_Accept lim rw r s = Some s'"
  shows "written s' p = written s p"
proof -
  note d = inv_storeD[OF i]
  from step_Accept_eff[OF x]
  have "s' = s \<or> (conns (world s') = conns (world s) \<and>
          handlers s' = handlers s @ [\<lparr>h_rw = rw, h_conn = None, h_at = Upgrading\<rparr>])"
    by blast
  then show ?thesis
  proof
    assume "s' = s" then show ?thesis by simp
  next
    assume a: "conns (world s') = conns (world s) \<and>
          handlers s' = handlers s @ [\<lparr>h_rw = rw, h_conn = None, h_at = Upgrading\<rparr>]"
    show ?thesis
      by (cases "p < length (handlers s)")
         (auto simp: written_def deref_def a nth_append split: option.splits)
  qed
qed

lemma written_UpgradeAnswer:
  assumes i: "inv_store s" and x: "step_UpgradeAnswer q replies answer s = Some s'"
  shows "written s' p = written s p"
proof -
  have "queue_of (world s') p = queue_of (world s) p"
    by (rule queue_same) (simp_all add: step_UpgradeAnswer_eff(3,4)[OF x])
  with flow_UpgradeAnswer[OF i x, of p] show ?thesis by (simp add: flow_def)
qed

text \<open>A step leaves what a handler has written as it is, or the handler, in its loop,
  has written the first of the messages its channel held for it.\<close>

lemma step_written:
  assumes i: "inv_store s" and st: "step lim marshal prepare e s = Some s'"
  shows "written s' p = written s p \<or>
         (live s p \<and> (\<exists>v rest. queue_of (world s) p = v # rest \<and> written s' p = written s p @ [v]))"
proof (cases e)
  case (SendBegin ks d)
  with st have x: "step_SendBegin marshal prepare ks d s = Some s'" by simp
  have "written s' p = written s p"
    by (rule written_same) (simp_all add: step_SendBegin_eff(3,4)[OF x])
  then show ?thesis by simp
next
  case SendPush
  with st have x: "step_SendPush s = Some s'" by simp
  have "written s' p = written s p"
    by (rule written_same) (simp_all add: step_SendPush_eff(3,4)[OF x])
  then show ?thesis by simp
next
  case SendEnd
  with st have x: "step_SendEnd s = Some s'" by simp
  have "written s' p = written s p"
    by (rule written_same) (simp_all add: step_SendEnd_eff(3,4)[OF x])
  then show ?thesis by simp
next
  case (Accept rw r)
  with st have x: "step_Accept lim rw r s = Some s'" by simp
  show ?thesis using written_Accept[OF i x] by simp
next
  case (UpgradeAnswer q replies answer)
  with st have x: "step_UpgradeAnswer q replies answer s = Some s'" by simp
  show ?thesis using written_UpgradeAnswer[OF i x] by simp
next
  case (Park q)
  with st have x: "step_Park q s = Some s'" by simp
  have "written s' p = written s p"
    by (rule written_same) (simp_all add: step_Park_eff(3,6)[OF x])
  then show ?thesis by simp
next
  case (TakeMsg q werr)
  with st have x: "step_TakeMsg q werr s = Some s'" by simp
  from step_TakeMsg_eff[OF x] obtain pr c cn k v c' where
    il: "in_loop s q = Some (pr, c, cn, k)" and pop: "chan_pop c = Some (v, c')"
    and alt: "(werr = None \<and> conns (world s') = (conns (world s))[cn := k\<lparr>wrote := wrote k @ [v]\<rparr>] \<and>
             handlers s' = handlers s) \<or>
            (werr \<noteq> None \<and> map wrote (conns (world s')) = map wrote (conns (world s)) \<and>
             length (conns (world s')) = length (conns (world s)) \<and>
             handlers s' = (handlers s)[q := (handlers s ! q)\<lparr>h_at := Leaving\<rparr>])"
    by blast
  note f = in_loop_Some[OF il]
  from alt show ?thesis
  proof
    assume a: "werr \<noteq> None \<and> map wrote (conns (world s')) = map wrote (conns (world s)) \<and>
             length (conns (world s')) = length (conns (world s)) \<and>
             handlers s' = (handlers s)[q := (handlers s ! q)\<lparr>h_at := Leaving\<rparr>]"
    have "written s' p = written s p"
      by (rule written_same) (simp_all add: a map_list_update_same)
    then show ?thesis by simp
  next
    assume a: "werr = None \<and> conns (world s') = (conns (world s))[cn := k\<lparr>wrote := wrote k @ [v]\<rparr>] \<and>
             handlers s' = handlers s"
    then have a1: "handlers s' = handlers s"
      and a2: "conns (world s') = (conns (world s))[cn := k\<lparr>wrote := wrote k @ [v]\<rparr>]" by simp_all
    show ?thesis
    proof (cases "p = q")
      case False
      have "written s' p = written s p" by (rule written_other[OF i a1 a2 f(1) f(3) False])
      then show ?thesis by simp
    next
      case True
      have w0: "written s q = wrote k" using f by (simp add: written_conn)
      have "written s' q = wrote (conns (world s') ! cn)"
        using f by (intro written_conn) (simp_all add: a1 a2)
      then have w1: "written s' q = wrote k @ [v]" using f(8) by (simp add: a2)
      have q0: "queue_of (world s) q = v # pending c'"
        using f chan_pop_pending[OF pop] by (simp add: queue_chan)
      have lv: "live s q" using f(2) by (simp add: live_nth[OF f(1)])
      show ?thesis using True w0 w1 q0 lv by simp
    qed
  qed
next
  case (ClientGone q)
  with st have x: "step_ClientGone q s = Some s'" by simp
  from step_ClientGone_eff(1)[OF x] obtain pr c cn k where il: "in_loop s q = Some (pr, c, cn, k)"
    and ks: "conns (world s') = (conns (world s))[cn := k\<lparr>done_closed := True\<rparr>]" by blast
  have "map wrote (conns (world s')) = map wrote (conns (world s))"
    unfolding ks by (rule map_list_update_same) (simp add: in_loop_Some(9)[OF il])
  then have "written s' p = written s p"
    by (intro written_same) (simp_all add: step_ClientGone_eff(6)[OF x])
  then show ?thesis by simp
next
  case (TakeDone q)
  with st have x: "step_TakeDone q s = Some s'" by simp
  note e = step_TakeDone_eff[OF x]
  have "written s' p = written s p"
    by (rule written_same) (simp_all add: e(7) e(8) map_list_update_same)
  then show ?thesis by simp
next
  case (Remove q)
  with st have x: "step_Remove q s = Some s'" by simp
  note e = step_Remove_eff[OF x]
  have "written s' p = written s p"
    by (rule written_same) (simp_all add: e(4) e(7) map_list_update_same)
  then show ?thesis by simp
qed

lemma exec_inv_store:
  "inv_store s \<Longrightarrow> exec lim marshal prepare es s = Some s' \<Longrightarrow> inv_store s'"
proof (induction es arbitrary: s)
  case Nil
  then show ?case by simp
next
  case (Cons e es)
  then obtain s1 where st: "step lim marshal prepare e s = Some s1"
    and ex: "exec lim marshal prepare es s1 = Some s'"
    by (auto split: option.splits)
  from Cons.IH[OF step_inv_store[OF Cons.prems(1) st] ex] show ?case .
qed

lemma exec_live:
  "exec lim marshal prepare es s = Some s' \<Longrightarrow> live s' p \<Longrightarrow> live s p"
proof (induction es arbitrary: s)
  case Nil
  then show ?case by simp
next
  case (Cons e es)
  then obtain s1 where st: "step lim marshal prepare e s = Some s1"
    and ex: "exec lim marshal prepare es s1 = Some s'"
    by (auto split: option.splits)
  from step_live[OF st Cons.IH[OF ex Cons.prems(2)]] show ?case .
qed

lemma exec_flow:
  "inv_store s \<Longrightarrow> exec lim marshal prepare es s = Some s' \<Longrightarrow> live s' p \<Longrightarrow>
   flow s' p = flow s p @ accepted lim marshal prepare es s p"
proof (induction es arbitrary: s)
  case Nil
  then show ?case by simp
next
  case (Cons e es)
  then obtain s1 where st: "step lim marshal prepare e s = Some s1"
    and ex: "exec lim marshal prepare es s1 = Some s'"
    by (auto split: option.splits)
  have l1: "live s1 p" by (rule exec_live[OF ex Cons.prems(3)])
  have f1: "flow s1 p = flow s p @ pushed e s p" by (rule step_flow[OF Cons.prems(1) st l1])
  have "flow s' p = flow s1 p @ accepted lim marshal prepare es s1 p"
    by (rule Cons.IH[OF step_inv_store[OF Cons.prems(1) st] ex Cons.prems(3)])
  then show ?case using f1 st by simp
qed

lemma exec_left:
  "inv_store s \<Longrightarrow> exec lim marshal prepare es s = Some s' \<Longrightarrow> \<not> live s p \<Longrightarrow>
   written s' p = written s p"
proof (induction es arbitrary: s)
  case Nil
  then show ?case by simp
next
  case (Cons e es)
  then obtain s1 where st: "step lim marshal prepare e s = Some s1"
    and ex: "exec lim marshal prepare es s1 = Some s'"
    by (auto split: option.splits)
  have n1: "\<not> live s1 p" using step_live[OF st] Cons.prems(3) by blast
  have w1: "written s1 p = written s p"
    using step_written[OF Cons.prems(1) st, of p] Cons.prems(3) by blast
  from Cons.IH[OF step_inv_store[OF Cons.prems(1) st] ex n1] w1 show ?case by simp
qed

lemma exec_written_prefix:
  "inv_store s \<Longrightarrow> exec lim marshal prepare es s = Some s' \<Longrightarrow>
   prefix (written s' p) (flow s p @ accepted lim marshal prepare es s p)"
proof (induction es arbitrary: s)
  case Nil
  then show ?case by (simp add: flow_def)
next
  case (Cons e es)
  then obtain s1 where st: "step lim marshal prepare e s = Some s1"
    and ex: "exec lim marshal prepare es s1 = Some s'"
    by (auto split: option.splits)
  note i1 = step_inv_store[OF Cons.prems(1) st]
  show ?case
  proof (cases "live s1 p")
    case True
    have "flow s1 p = flow s p @ pushed e s p" by (rule step_flow[OF Cons.prems(1) st True])
    with Cons.IH[OF i1 ex] st show ?thesis by simp
  next
    case False
    have w: "written s' p = written s1 p" by (rule exec_left[OF i1 ex False])
    from step_written[OF Cons.prems(1) st, of p]
    have "prefix (written s1 p) (flow s p)" by (auto simp: flow_def)
    then show ?thesis using w st by (simp add: prefix_def) (metis append.assoc)
  qed
qed

text \<open>
  The message of the \<^verbatim>\<open>Send\<close> that holds the mutex is the last one prepared, and its
  loop visits no key twice.
\<close>

definition inv_send :: "('u, 'pm) sys \<Rightarrow> bool" where
  "inv_send s =
     (case sending s of
        None \<Rightarrow> True
      | Some (msg, rest, failed) \<Rightarrow> Suc msg = length (msgs (world s)) \<and> distinct rest)"

text \<open>The least index a message pushed on the channel of \<open>p\<close> from now on can have.\<close>

definition next_msg :: "('u, 'pm) sys \<Rightarrow> pear_ptr \<Rightarrow> nat" where
  "next_msg s p =
     (case sending s of
        None \<Rightarrow> length (msgs (world s))
      | Some (msg, rest, failed) \<Rightarrow> if p \<in> set rest then msg else Suc msg)"

lemma next_msg_le: "inv_send s \<Longrightarrow> next_msg s p \<le> length (msgs (world s))"
  by (auto simp: inv_send_def next_msg_def split: option.splits)

lemma send_same:
  assumes "sending s' = sending s" and "msgs (world s') = msgs (world s)" and "e \<noteq> SendPush"
    and "inv_send s"
  shows "inv_send s' \<and> next_msg s p \<le> next_msg s' p \<and>
         (\<forall>m\<in>set (pushed e s p). next_msg s p \<le> m \<and> m < next_msg s' p)"
  using assms by (auto simp: inv_send_def next_msg_def pushed_not_SendPush split: option.splits)

lemma step_send:
  assumes j: "inv_send s" and st: "step lim marshal prepare e s = Some s'"
  shows "inv_send s' \<and> next_msg s p \<le> next_msg s' p \<and>
         (\<forall>m\<in>set (pushed e s p). next_msg s p \<le> m \<and> m < next_msg s' p)"
proof (cases e)
  case (SendBegin ks d)
  with st have x: "step_SendBegin marshal prepare ks d s = Some s'" by simp
  from step_SendBegin_eff(5)[OF x] show ?thesis
  proof
    assume "s' = s"
    with j SendBegin show ?thesis by (simp add: pushed_not_SendPush)
  next
    assume "sending s = None \<and> sending s' = Some (length (msgs (world s)), ks, []) \<and>
          length (msgs (world s')) = Suc (length (msgs (world s))) \<and> distinct ks"
    then show ?thesis using SendBegin
      by (simp add: inv_send_def next_msg_def pushed_not_SendPush)
  qed
next
  case SendPush
  with st have x: "step_SendPush s = Some s'" by simp
  note e = step_SendPush_eff[OF x]
  from e(1) obtain msg q qs failed where sd: "sending s = Some (msg, q # qs, failed)"
    and sd': "sending s' = None \<or> (\<exists>f'. sending s' = Some (msg, qs, f'))"
    by blast
  from j sd have m: "Suc msg = length (msgs (world s))" and dq: "q \<notin> set qs" "distinct qs"
    by (simp_all add: inv_send_def)
  have pu: "pushed e s p = (if q = p \<and> pear_ready (world s) p then [msg] else [])"
    by (simp add: SendPush pushed_def sd)
  from sd' show ?thesis
  proof
    assume "sending s' = None"
    then show ?thesis using sd m e(5) dq
      by (auto simp: pu inv_send_def next_msg_def)
  next
    assume "\<exists>f'. sending s' = Some (msg, qs, f')"
    then show ?thesis using sd m dq e(5)
      by (auto simp: pu inv_send_def next_msg_def)
  qed
next
  case SendEnd
  with st have x: "step_SendEnd s = Some s'" by simp
  note e = step_SendEnd_eff[OF x]
  from x obtain msg failed where sd: "sending s = Some (msg, [], failed)"
    by (auto simp: step_SendEnd_def split: option.splits list.splits)
  with j have "Suc msg = length (msgs (world s))" by (simp add: inv_send_def)
  then show ?thesis using sd e(5,6) SendEnd
    by (simp add: inv_send_def next_msg_def pushed_not_SendPush)
next
  case (Accept rw r)
  with st have x: "step_Accept lim rw r s = Some s'" by simp
  from step_Accept_eff[OF x] have a: "sending s' = sending s" "msgs (world s') = msgs (world s)"
    by auto
  have ne: "e \<noteq> SendPush" using Accept by simp
  show ?thesis by (rule send_same[OF a ne j])
next
  case (UpgradeAnswer q replies answer)
  with st have x: "step_UpgradeAnswer q replies answer s = Some s'" by simp
  have ne: "e \<noteq> SendPush" using UpgradeAnswer by simp
  show ?thesis by (rule send_same[OF step_UpgradeAnswer_eff(6)[OF x] step_UpgradeAnswer_eff(5)[OF x] ne j])
next
  case (Park q)
  with st have x: "step_Park q s = Some s'" by simp
  have ne: "e \<noteq> SendPush" using Park by simp
  show ?thesis by (rule send_same[OF step_Park_eff(5)[OF x] step_Park_eff(4)[OF x] ne j])
next
  case (TakeMsg q werr)
  with st have x: "step_TakeMsg q werr s = Some s'" by simp
  from step_TakeMsg_eff[OF x] have a: "sending s' = sending s" "msgs (world s') = msgs (world s)"
    by blast+
  have ne: "e \<noteq> SendPush" using TakeMsg by simp
  show ?thesis by (rule send_same[OF a ne j])
next
  case (ClientGone q)
  with st have x: "step_ClientGone q s = Some s'" by simp
  have ne: "e \<noteq> SendPush" using ClientGone by simp
  show ?thesis by (rule send_same[OF step_ClientGone_eff(5)[OF x] step_ClientGone_eff(4)[OF x] ne j])
next
  case (TakeDone q)
  with st have x: "step_TakeDone q s = Some s'" by simp
  have ne: "e \<noteq> SendPush" using TakeDone by simp
  show ?thesis by (rule send_same[OF step_TakeDone_eff(5)[OF x] step_TakeDone_eff(4)[OF x] ne j])
next
  case (Remove q)
  with st have x: "step_Remove q s = Some s'" by simp
  have ne: "e \<noteq> SendPush" using Remove by simp
  show ?thesis by (rule send_same[OF step_Remove_eff(6)[OF x] step_Remove_eff(5)[OF x] ne j])
qed

lemma exec_send_order:
  "inv_send s \<Longrightarrow> exec lim marshal prepare es s = Some s' \<Longrightarrow>
   inv_send s' \<and> next_msg s p \<le> next_msg s' p \<and>
   sorted_wrt (<) (accepted lim marshal prepare es s p) \<and>
   (\<forall>m\<in>set (accepted lim marshal prepare es s p). next_msg s p \<le> m \<and> m < next_msg s' p)"
proof (induction es arbitrary: s)
  case Nil
  then show ?case by simp
next
  case (Cons e es)
  then obtain s1 where st: "step lim marshal prepare e s = Some s1"
    and ex: "exec lim marshal prepare es s1 = Some s'"
    by (auto split: option.splits)
  from step_send[OF Cons.prems(1) st, of p]
  have j1: "inv_send s1" and n1: "next_msg s p \<le> next_msg s1 p"
    and p1: "\<forall>m\<in>set (pushed e s p). next_msg s p \<le> m \<and> m < next_msg s1 p"
    by blast+
  from Cons.IH[OF j1 ex]
  have j': "inv_send s'" and n': "next_msg s1 p \<le> next_msg s' p"
    and so: "sorted_wrt (<) (accepted lim marshal prepare es s1 p)"
    and a': "\<forall>m\<in>set (accepted lim marshal prepare es s1 p). next_msg s1 p \<le> m \<and> m < next_msg s' p"
    by blast+
  have acc: "accepted lim marshal prepare (e # es) s p = pushed e s p @ accepted lim marshal prepare es s1 p"
    using st by simp
  have pu: "sorted_wrt (<) (pushed e s p)"
    by (cases e) (auto simp: pushed_def split: option.splits list.splits)
  have "sorted_wrt (<) (pushed e s p @ accepted lim marshal prepare es s1 p)"
    unfolding sorted_wrt_append using pu so p1 a' by fastforce
  moreover have "\<forall>m\<in>set (pushed e s p @ accepted lim marshal prepare es s1 p).
                   next_msg s p \<le> m \<and> m < next_msg s' p"
    using p1 a' n1 n' by fastforce
  ultimately show ?case using j' n1 n' unfolding acc by simp
qed

lemma initial_inv: "inv_store (initial b)" "inv_send (initial b)"
  "flow (initial b) p = []"
  by (simp_all add: inv_store_def inv_send_def initial_def empty_world_def flow_def written_def
        queue_of_def pear_chan_def deref_def)

section \<open>Send as a sequence of steps\<close>

lemma push_steps:
  assumes "sending s = Some (msg, ps, failed)"
      and "send_loop msg ps failed (world s) = Returns failed' w'"
  shows "exec lim marshal prepare (replicate (length ps) SendPush @ rest) s
           = exec lim marshal prepare rest (s\<lparr>world := w', sending := Some (msg, [], failed')\<rparr>)"
  using assms
proof (induction ps arbitrary: s failed)
  case Nil
  then have "s\<lparr>world := w', sending := Some (msg, [], failed')\<rparr> = s" by simp
  then show ?case by simp
next
  case (Cons p ps)
  from Cons.prems(2) obtain f1 w1 where one: "send_one msg p failed (world s) = Returns f1 w1"
    and more: "send_loop msg ps f1 w1 = Returns failed' w'"
    by (cases "send_one msg p failed (world s)") simp_all
  define s1 where "s1 = s\<lparr>world := w1, sending := Some (msg, ps, f1)\<rparr>"
  have st: "step_SendPush s = Some s1"
    using Cons.prems(1) one by (simp add: step_SendPush_def s1_def)
  have sd1: "sending s1 = Some (msg, ps, f1)" and w1: "world s1 = w1" by (simp_all add: s1_def)
  have "exec lim marshal prepare (replicate (length ps) SendPush @ rest) s1
           = exec lim marshal prepare rest (s1\<lparr>world := w', sending := Some (msg, [], failed')\<rparr>)"
    by (rule Cons.IH[OF sd1]) (simp add: w1 more)
  moreover have "s1\<lparr>world := w', sending := Some (msg, [], failed')\<rparr>
               = s\<lparr>world := w', sending := Some (msg, [], failed')\<rparr>"
    by (simp add: s1_def)
  ultimately show ?case using st by simp
qed

text \<open>
  The three kinds of steps of a \<^verbatim>\<open>Send\<close>, taken one after the other with no other
  step in between, are the call of \<^verbatim>\<open>Send\<close>.
\<close>

lemma Send_as_steps:
  assumes n: "sending s = None" and ro: "range_order ks (world s)"
      and wf: "wf_world (world s)" and l: "\<not> lock (beam (world s))"
      and m: "marshal d = Inr bs" and p: "prepare 1 bs = Inr pm"
  shows "exec lim marshal prepare (SendBegin ks d # replicate (length ks) SendPush @ [SendEnd]) s
           = Some (s\<lparr>world := state_of (Send marshal prepare ks d (world s))\<rparr>)"
proof -
  define w2 where "w2 = (world s)\<lparr>msgs := msgs (world s) @ [pm], beam := (beam (world s))\<lparr>lock := True\<rparr>\<rparr>"
  define msg where "msg = length (msgs (world s))"
  have L: "Lock ((world s)\<lparr>msgs := msgs (world s) @ [pm]\<rparr>) = Returns () w2"
    using l by (simp add: Lock_def w2_def)
  define s1 where "s1 = s\<lparr>world := w2, sending := Some (msg, ks, [])\<rparr>"
  have b: "step_SendBegin marshal prepare ks d s = Some s1"
    using n ro m p L by (simp add: step_SendBegin_def s1_def msg_def)
  have co: "chan_of w2 = chan_of (world s)" by (simp add: chan_of_def fun_eq_iff w2_def)
  have V: "\<forall>p\<in>set ks. p < length (heap w2) \<and> chan_of w2 p < length (chans w2)"
    using wf_range_order(1)[OF wf ro] by (simp add: co) (simp add: w2_def)
  have D: "distinct (map (chan_of w2) ks)" using wf_range_order(2)[OF wf ro] by (simp add: co)
  from send_loop_ok[OF V D, of msg "[]"] obtain failed w3 where
    sl: "send_loop msg ks [] w2 = Returns failed w3" by auto
  have sd1: "sending s1 = Some (msg, ks, [])" and ws1: "world s1 = w2" by (simp_all add: s1_def)
  have pushes: "exec lim marshal prepare (replicate (length ks) SendPush @ [SendEnd]) s1
           = exec lim marshal prepare [SendEnd] (s1\<lparr>world := w3, sending := Some (msg, [], failed)\<rparr>)"
    by (rule push_steps[OF sd1]) (simp add: ws1 sl)
  define s2 where "s2 = s1\<lparr>world := w3, sending := Some (msg, [], failed)\<rparr>"
  have S: "Send marshal prepare ks d (world s) =
          (if 0 < length failed
           then (case call_logger ''Discarded buffer overflow message for %s'' [Join failed '',''] w3 of
                   Returns u w4 \<Rightarrow> Returns None (Unlock w4)
                 | Panics e w4 \<Rightarrow> Panics e (Unlock w4)
                 | Blocks w4 \<Rightarrow> Blocks w4)
           else Returns None (Unlock w3))"
    using m p L sl by (simp add: Send_def Let_def msg_def)
  have nb: "\<And>f a w x. call_logger f a w \<noteq> Blocks x"
    by (simp add: call_logger_def split: option.splits)
  have e: "step_SendEnd s2 = Some (s\<lparr>world := state_of (Send marshal prepare ks d (world s))\<rparr>)"
  proof (cases "0 < length failed")
    case False
    then show ?thesis using n by (simp add: step_SendEnd_def s2_def s1_def S)
  next
    case True
    show ?thesis
      using True n nb[of "''Discarded buffer overflow message for %s''" "[Join failed '','']" w3]
      by (cases "call_logger ''Discarded buffer overflow message for %s'' [Join failed '',''] w3")
         (auto simp: step_SendEnd_def s2_def s1_def S)
  qed
  show ?thesis using b pushes e by (simp add: s2_def)
qed

section \<open>An example execution\<close>

text \<open>
  One client connects and blocks in its \<^verbatim>\<open>select\<close>; three calls of \<^verbatim>\<open>Send\<close> follow
  on a Beam with a buffer of one message: the first message is handed to the handler, the
  second is buffered, the third is discarded; then the handler writes the first message.
\<close>

definition example_run :: "string event list" where
  "example_run =
     [Accept 7 \<lparr>RemoteAddr = ''10.0.0.1:4000''\<rparr>, UpgradeAnswer 0 [] None, Park 0,
      SendBegin [0] ''a'', SendPush, SendEnd,
      SendBegin [0] ''b'', SendPush, SendEnd,
      SendBegin [0] ''c'', SendPush, SendEnd,
      TakeMsg 0 None]"

definition example_final :: "(unit, int \<times> bytes) sys" where
  "example_final =
     \<lparr>world =
        \<lparr>beam = \<lparr>pears = [0 \<mapsto> True], lock = False, buffer = 1, upgrader = (),
                  headers = Map.empty, logger = Some (LogFn ''log.Printf'')\<rparr>,
         heap = [\<lparr>ch = 0, addr = ''10.0.0.1:4000''\<rparr>],
         chans = [\<lparr>cap = 1, buf = [1], recv_parked = False, handed = None\<rparr>],
         msgs = [(1, ''a''), (1, ''b''), (1, ''c'')],
         conns = [\<lparr>wrote = [0], closed = False, done_closed = False\<rparr>],
         log_calls = [(''[10.0.0.1:4000] New connection'', []),
                      (''Discarded buffer overflow message for %s'', [''10.0.0.1:4000''])],
         http_errors = []\<rparr>,
      sending = None,
      handlers = [\<lparr>h_rw = 7, h_conn = Some 0, h_at = InLoop\<rparr>]\<rparr>"

lemma example_exec:
  "exec example_limit example_marshal example_prepare example_run (initial (New () [OptBuffer 1]))
     = Some example_final"
  by (simp add: example_run_def example_final_def initial_def empty_world_def New_def OptBuffer_def
      example_limit_def example_marshal_def example_prepare_def
      step_SendBegin_def step_SendPush_def step_SendEnd_def step_Accept_def step_UpgradeAnswer_def
      step_Park_def step_TakeMsg_def in_loop_def chan_pop_def pending_def Upgrade_replies_def
      ServeHTTP_register_def make_chan_def log_def call_logger_def add_def Lock_def Unlock_def
      range_order_def send_one_def chan_ready_def chan_push_def deref_def Let_def)

section \<open>Claims\<close>

text \<open>
  C1 (the code departs from the claim).  The claim: with a nil logger, a \<^verbatim>\<open>Send\<close> that
  finds the queue of a pear full still returns nil and calls no logging function.  The
  code: \<^verbatim>\<open>Send\<close> calls \<^verbatim>\<open>b.logger\<close> without the nil test that \<^verbatim>\<open>log\<close> makes, so
  on a Beam made with \<^verbatim>\<open>OptLogger(nil)\<close> whose only pear has a full queue, a payload
  that serialises makes \<^verbatim>\<open>Send\<close> panic instead of returning.
\<close>

theorem Send_nil_logger_overflow_panics:
  "logger (beam full_world) = None \<and>
   \<not> pear_ready full_world 0 \<and>
   example_marshal ''second'' = Inr ''second'' \<and>
   Send example_marshal example_prepare [0] ''second'' full_world
     = Panics ''invalid memory address or nil pointer dereference''
         (full_world\<lparr>msgs := [(1, ''first''), (1, ''second'')]\<rparr>)"
  by (simp add: full_world_eq Send_def example_marshal_def example_prepare_def
      Lock_def Unlock_def send_one_def deref_def chan_ready_def chan_push_def call_logger_def
      pear_ready_def pear_chan_def)

text \<open>
  C4 (confirmed).  When serialisation of the payload fails, \<^verbatim>\<open>Send\<close> returns the
  serialisation error and the whole state is the one before the call: no queue has
  received a message, nothing was logged, the registry is the same.
\<close>

theorem Send_marshal_failure_touches_nothing:
  "marshal data = Inl err \<Longrightarrow>
   Send marshal prepare ks data w = Returns (Some (FailedMarshaling data err)) w"
  by (simp add: Send_def)

theorem Send_marshal_failure_touches_nothing_witness:
  "example_marshal ''chan'' = Inl ''json: unsupported type'' \<and>
   Send example_marshal example_prepare [1, 0] ''chan'' mixed_world
     = Returns (Some (FailedMarshaling ''chan'' ''json: unsupported type'')) mixed_world"
proof -
  have h: "example_marshal ''chan'' = Inl ''json: unsupported type''"
    by (simp add: example_marshal_def)
  show ?thesis
    using h Send_marshal_failure_touches_nothing[where marshal = example_marshal and data = "''chan''"
        and prepare = example_prepare and ks = "[1, 0]" and w = mixed_world, OF h]
    by simp
qed

text \<open>
  C10 (confirmed).  Whatever the payload and however the call ends, \<^verbatim>\<open>Send\<close> leaves the
  Beam as it was (registered pears, buffer size, headers, upgrader, logger, and the mutex
  released again), as well as the pears themselves, the connections and the capacity of
  every channel.
\<close>

theorem Send_frame:
  "beam (state_of (Send marshal prepare ks data w)) = beam w \<and>
   heap (state_of (Send marshal prepare ks data w)) = heap w \<and>
   conns (state_of (Send marshal prepare ks data w)) = conns w \<and>
   map cap (chans (state_of (Send marshal prepare ks data w))) = map cap (chans w)"
  by (rule Send_state_frame)

text \<open>
  C9 (confirmed).  With the mutex free, \<^verbatim>\<open>remove\<close> returns; it deletes the key \<open>p\<close>
  from the map and changes nothing else; if \<open>p\<close> is not a key the state is unchanged;
  and a second \<^verbatim>\<open>remove\<close> of the same pear returns the same state again.
\<close>

theorem remove_idempotent_total:
  assumes "\<not> lock (beam w)"
  shows "\<exists>w'. remove_pear p w = Returns () w' \<and>
              pears (beam w') = (pears (beam w))(p := None) \<and>
              w' = w\<lparr>beam := (beam w)\<lparr>pears := pears (beam w')\<rparr>\<rparr> \<and>
              (p \<notin> dom (pears (beam w)) \<longrightarrow> w' = w) \<and>
              remove_pear p w' = Returns () w'"
proof -
  define w' where "w' = w\<lparr>beam := (beam w)\<lparr>pears := (pears (beam w))(p := None)\<rparr>\<rparr>"
  have r: "remove_pear p w = Returns () w'"
    using assms by (simp add: remove_pear_def Lock_def Unlock_def w'_def)
  have l': "\<not> lock (beam w')" using assms by (simp add: w'_def)
  have again: "remove_pear p w' = Returns () w'"
    using l' by (simp add: remove_pear_def Lock_def Unlock_def w'_def)
  have noop: "w' = w" if "p \<notin> dom (pears (beam w))"
  proof -
    from that have "(pears (beam w))(p := None) = pears (beam w)" by (auto simp: fun_eq_iff)
    then show ?thesis by (simp add: w'_def)
  qed
  show ?thesis using r again noop by (auto simp: w'_def)
qed

theorem remove_idempotent_total_witness:
  "\<not> lock (beam mixed_world) \<and>
   remove_pear 0 mixed_world = Returns () (mixed_world\<lparr>beam := (beam mixed_world)\<lparr>pears := [1 \<mapsto> True]\<rparr>\<rparr>) \<and>
   remove_pear 0 (mixed_world\<lparr>beam := (beam mixed_world)\<lparr>pears := [1 \<mapsto> True]\<rparr>\<rparr>)
     = Returns () (mixed_world\<lparr>beam := (beam mixed_world)\<lparr>pears := [1 \<mapsto> True]\<rparr>\<rparr>) \<and>
   remove_pear 5 mixed_world = Returns () mixed_world"
proof -
  have h: "\<not> lock (beam mixed_world)" by (rule mixed_world_wf)
  have e: "(pears (beam mixed_world))(0 := None) = [1 \<mapsto> True]"
    by (auto simp: mixed_world_eq fun_eq_iff)
  have d: "5 \<notin> dom (pears (beam mixed_world))" by (simp add: mixed_world_eq)
  have d0: "0 \<in> dom (pears (beam mixed_world))" by (simp add: mixed_world_eq)
  from remove_idempotent_total[OF h, of 0] e d0
  have a: "remove_pear 0 mixed_world = Returns () (mixed_world\<lparr>beam := (beam mixed_world)\<lparr>pears := [1 \<mapsto> True]\<rparr>\<rparr>)"
    "remove_pear 0 (mixed_world\<lparr>beam := (beam mixed_world)\<lparr>pears := [1 \<mapsto> True]\<rparr>\<rparr>)
       = Returns () (mixed_world\<lparr>beam := (beam mixed_world)\<lparr>pears := [1 \<mapsto> True]\<rparr>\<rparr>)"
    by auto
  from remove_idempotent_total[OF h, of 5] d
  have b: "remove_pear 5 mixed_world = Returns () mixed_world" by auto
  show ?thesis using h a b by simp
qed

text \<open>
  C6 (corrected).  The claim: every \<^verbatim>\<open>Send\<close> in which a push failed emits exactly one
  aggregated log line.  On a Beam whose logger is nil no line is emitted: below, the push
  for the only pear fails and the list of logging calls is unchanged.
\<close>

theorem Send_overflow_log_counterexample:
  "logger (beam full_world) = None \<and>
   example_marshal ''second'' = Inr ''second'' \<and>
   \<not> pear_ready full_world 0 \<and>
   queue_of (state_of (Send example_marshal example_prepare [0] ''second'' full_world)) 0
     = queue_of full_world 0 \<and>
   log_calls (state_of (Send example_marshal example_prepare [0] ''second'' full_world))
     = log_calls full_world"
  by (simp add: full_world_eq Send_def example_marshal_def example_prepare_def
      Lock_def Unlock_def send_one_def deref_def chan_ready_def chan_push_def call_logger_def
      pear_ready_def pear_chan_def queue_of_def pending_def)

text \<open>
  C6, as amended.  On a Beam whose logger is not nil, a \<^verbatim>\<open>Send\<close> whose payload is
  serialised and prepared makes exactly one call to the logger if at least one push
  failed, with the addresses of all the pears whose push failed joined by commas, and
  no call at all if no push failed.
\<close>

theorem Send_overflow_logged_once:
  assumes "wf_world w" and "range_order ks w" and "\<not> lock (beam w)"
      and "marshal data = Inr bs" and "prepare 1 bs = Inr pm"
      and "logger (beam w) = Some f"
  shows "\<exists>w'. Send marshal prepare ks data w = Returns None w' \<and>
              log_calls w' =
                (if \<forall>p\<in>set ks. pear_ready w p then log_calls w
                 else log_calls w @
                   [(''Discarded buffer overflow message for %s'',
                     [Join (map (addr_of w) (filter (\<lambda>p. \<not> pear_ready w p) ks)) '',''])])"
proof -
  have e: "(map (addr_of w) (filter (\<lambda>p. \<not> pear_ready w p) ks) = []) = (\<forall>p\<in>set ks. pear_ready w p)"
    by (rule failed_empty_iff)
  from Send_pear_effect[where marshal = marshal and data = data and prepare = prepare,
      OF assms(1,2,3,4,5)]
  show ?thesis unfolding e by (auto simp: assms(6) split: if_splits)
qed

theorem Send_overflow_logged_once_witness:
  "wf_world mixed_world \<and> range_order [1, 0] mixed_world \<and> \<not> lock (beam mixed_world) \<and>
   example_marshal ''second'' = Inr ''second'' \<and> example_prepare 1 ''second'' = Inr (1, ''second'') \<and>
   logger (beam mixed_world) = Some (LogFn ''log.Printf'') \<and>
   returned (Send example_marshal example_prepare [1, 0] ''second'' mixed_world) = Some None \<and>
   log_calls (state_of (Send example_marshal example_prepare [1, 0] ''second'' mixed_world))
     = log_calls mixed_world @ [(''Discarded buffer overflow message for %s'', [''10.0.0.1:4000''])]"
proof -
  note h = mixed_world_wf
  have m: "example_marshal ''second'' = Inr ''second''" by (simp add: example_marshal_def)
  have p: "example_prepare 1 ''second'' = Inr (1, ''second'')" by (simp add: example_prepare_def)
  from Send_overflow_logged_once[where marshal = example_marshal and prepare = example_prepare
      and data = "''second''", OF h(1,2,3) m p h(4)]
  have "returned (Send example_marshal example_prepare [1, 0] ''second'' mixed_world) = Some None \<and>
        log_calls (state_of (Send example_marshal example_prepare [1, 0] ''second'' mixed_world))
          = log_calls mixed_world @ [(''Discarded buffer overflow message for %s'', [''10.0.0.1:4000''])]"
    by (auto simp: mixed_world_reads)
  then show ?thesis using h m p by simp
qed

text \<open>
  C7 (confirmed).  A \<^verbatim>\<open>Send\<close> that returns nil has serialised the payload to bytes
  \<open>bs\<close>, has created exactly one prepared message \<open>pm\<close> from \<open>bs\<close> (the store of
  prepared messages grew by that one object), and every registered pear that accepted
  the push has the pointer to this one object appended to its queue; the queues of the
  other pears are unchanged.
\<close>

theorem Send_one_prepared_message_for_all:
  assumes "wf_world w" and "range_order ks w"
      and "Send marshal prepare ks data w = Returns None w'"
  shows "\<exists>bs pm. marshal data = Inr bs \<and> prepare 1 bs = Inr pm \<and>
                 msgs w' = msgs w @ [pm] \<and>
                 deref (msgs w') (length (msgs w)) = Some pm \<and>
                 (\<forall>p\<in>dom (pears (beam w)).
                    queue_of w' p =
                      (if pear_ready w p then queue_of w p @ [length (msgs w)] else queue_of w p))"
proof -
  from assms(3) obtain bs where m: "marshal data = Inr bs"
    by (cases "marshal data") (simp_all add: Send_def)
  from assms(3) m obtain pm where p: "prepare 1 bs = Inr pm"
    by (cases "prepare 1 bs") (simp_all add: Send_def)
  have l: "\<not> lock (beam w)"
  proof
    assume "lock (beam w)"
    then have "Send marshal prepare ks data w = Blocks (w\<lparr>msgs := msgs w @ [pm]\<rparr>)"
      using m p by (simp add: Send_def Lock_def)
    with assms(3) show False by simp
  qed
  from Send_pear_effect[where marshal = marshal and data = data and prepare = prepare,
      OF assms(1,2) l m p]
  obtain w2 where
    S: "Send marshal prepare ks data w =
         (if map (addr_of w) (filter (\<lambda>p. \<not> pear_ready w p) ks) = [] then Returns None w2
          else case logger (beam w) of
                 None \<Rightarrow> Panics ''invalid memory address or nil pointer dereference'' w2
               | Some f \<Rightarrow> Returns None w2)"
    and ms: "msgs w2 = msgs w @ [pm]"
    and q: "\<forall>p\<in>set ks. queue_of w2 p =
                (if pear_ready w p then queue_of w p @ [length (msgs w)] else queue_of w p)"
    by blast
  from S assms(3) have "w2 = w'" by (auto split: if_splits option.splits)
  with ms q assms(2) m p show ?thesis by (auto simp: range_order_def deref_def)
qed

theorem Send_one_prepared_message_for_all_witness:
  "wf_world mixed_world \<and> range_order [1, 0] mixed_world \<and>
   returned (Send example_marshal example_prepare [1, 0] ''second'' mixed_world) = Some None \<and>
   msgs (state_of (Send example_marshal example_prepare [1, 0] ''second'' mixed_world))
     = [(1, ''first''), (1, ''second'')] \<and>
   queue_of (state_of (Send example_marshal example_prepare [1, 0] ''second'' mixed_world)) 1 = [1] \<and>
   queue_of (state_of (Send example_marshal example_prepare [1, 0] ''second'' mixed_world)) 0 = [0]"
proof -
  note h = mixed_world_wf
  obtain w' where S: "Send example_marshal example_prepare [1, 0] ''second'' mixed_world = Returns None w'"
    using mixed_world_Send_second by blast
  have d: "dom (pears (beam mixed_world)) = {0, 1}" by (auto simp: mixed_world_eq)
  from Send_one_prepared_message_for_all[OF h(1,2) S]
  have "msgs w' = [(1, ''first''), (1, ''second'')] \<and> queue_of w' 1 = [1] \<and> queue_of w' 0 = [0]"
    by (auto simp: d mixed_world_reads example_marshal_def example_prepare_def)
  then show ?thesis using h S by simp
qed

text \<open>
  C5 (confirmed).  On a well-formed state the loop of \<^verbatim>\<open>Send\<close> returns (it never
  blocks); for every registered pear whose channel is not ready the queue is left as it
  was and the address of the pear is collected in \<open>failed\<close>, in the order of the visit;
  every pear whose channel is ready has the message appended to its queue.  And when
  \<open>K + 1\<close> payloads are sent, with no receive on a pear whose queue of capacity \<open>K\<close>
  was empty, each payload becomes one prepared message and the queue of that pear holds
  exactly the first \<open>K\<close> of them in order: the last one is dropped.
\<close>

theorem Send_drops_on_full_queue:
  assumes "wf_world w" and "range_order ks w"
  shows "(\<exists>w'. send_loop msg ks [] w
                  = Returns (map (addr_of w) (filter (\<lambda>q. \<not> pear_ready w q) ks)) w' \<and>
               (\<forall>q\<in>set ks. queue_of w' q =
                  (if pear_ready w q then queue_of w q @ [msg] else queue_of w q)))
       \<and> (\<not> lock (beam w) \<and>
            (\<forall>call\<in>set calls. range_order (fst call) w \<and>
               (\<exists>bs pm. marshal (snd call) = Inr bs \<and> prepare 1 bs = Inr pm)) \<and>
            p \<in> dom (pears (beam w)) \<and> pear_chan w p = Some c \<and> buf c = [] \<and> handed c = None \<and>
            \<not> recv_parked c \<and>
            length calls = cap c + 1
          \<longrightarrow> map Some (msgs (Sends marshal prepare calls w))
                = map Some (msgs w) @ map (\<lambda>call. prepared marshal prepare (snd call)) calls \<and>
              queue_of (Sends marshal prepare calls w) p
                = [length (msgs w) ..< length (msgs w) + cap c])"
proof (intro conjI impI)
  show "\<exists>w'. send_loop msg ks [] w
                  = Returns (map (addr_of w) (filter (\<lambda>q. \<not> pear_ready w q) ks)) w' \<and>
               (\<forall>q\<in>set ks. queue_of w' q =
                  (if pear_ready w q then queue_of w q @ [msg] else queue_of w q))"
    by (rule send_loop_pears[OF assms])
next
  assume h: "\<not> lock (beam w) \<and>
            (\<forall>call\<in>set calls. range_order (fst call) w \<and>
               (\<exists>bs pm. marshal (snd call) = Inr bs \<and> prepare 1 bs = Inr pm)) \<and>
            p \<in> dom (pears (beam w)) \<and> pear_chan w p = Some c \<and> buf c = [] \<and> handed c = None \<and>
            \<not> recv_parked c \<and>
            length calls = cap c + 1"
  then have l: "\<not> lock (beam w)"
    and cs: "\<forall>call\<in>set calls. range_order (fst call) w \<and>
               (\<exists>bs pm. marshal (snd call) = Inr bs \<and> prepare 1 bs = Inr pm)"
    and p: "p \<in> dom (pears (beam w))" and c: "pear_chan w p = Some c" "buf c = []" "\<not> recv_parked c"
      "handed c = None"
    and n: "length calls = cap c + 1" by blast+
  show "map Some (msgs (Sends marshal prepare calls w))
                = map Some (msgs w) @ map (\<lambda>call. prepared marshal prepare (snd call)) calls"
    by (rule Sends_msgs[where marshal=marshal and prepare=prepare, OF assms(1) l cs])
  have b: "buf c = take (cap c) [length (msgs w)..<length (msgs w)]" using c(2) by simp
  from Sends_queue[where marshal=marshal and prepare=prepare, OF assms(1) l cs p c(1) c(3) b order_refl c(4)]
  show "queue_of (Sends marshal prepare calls w) p = [length (msgs w) ..< length (msgs w) + cap c]"
    by (simp add: n)
qed

theorem Send_drops_on_full_queue_witness:
  "wf_world quiet_world \<and> range_order [0] quiet_world \<and> \<not> lock (beam quiet_world) \<and>
   logger (beam quiet_world) = None \<and>
   pear_chan quiet_world 0 = Some \<lparr>cap = 1, buf = [], recv_parked = False, handed = None\<rparr> \<and>
   returned (send_loop 5 [0] [] quiet_world) = Some [] \<and>
   queue_of (state_of (send_loop 5 [0] [] quiet_world)) 0 = [5] \<and>
   msgs (Sends example_marshal example_prepare [([0], ''a''), ([0], ''b'')] quiet_world)
     = [(1, ''a''), (1, ''b'')] \<and>
   queue_of (Sends example_marshal example_prepare [([0], ''a''), ([0], ''b'')] quiet_world) 0 = [0]"
proof -
  note h = quiet_world_wf
  have calls: "\<forall>call\<in>set [([0], ''a''), ([0], ''b'')]. range_order (fst call) quiet_world \<and>
         (\<exists>bs pm. example_marshal (snd call) = Inr bs \<and> example_prepare 1 bs = Inr pm)"
    by (simp add: h example_marshal_def example_prepare_def)
  note t = Send_drops_on_full_queue[where marshal = example_marshal and prepare = example_prepare
      and calls = "[([0], ''a''), ([0], ''b'')]" and p = 0 and msg = 5
      and c = "\<lparr>cap = 1, buf = [], recv_parked = False, handed = None\<rparr>", OF h(1,2)]
  from t have a: "returned (send_loop 5 [0] [] quiet_world) = Some []"
      "queue_of (state_of (send_loop 5 [0] [] quiet_world)) 0 = [5]"
    by (auto simp: h)
  from t calls have b: "map Some (msgs (Sends example_marshal example_prepare [([0], ''a''), ([0], ''b'')] quiet_world))
            = [Some (1, ''a''), Some (1, ''b'')]"
      "queue_of (Sends example_marshal example_prepare [([0], ''a''), ([0], ''b'')] quiet_world) 0 = [0]"
    by (simp_all add: h prepared_def example_marshal_def example_prepare_def)
  from b(1) have b1: "msgs (Sends example_marshal example_prepare [([0], ''a''), ([0], ''b'')] quiet_world)
     = [(1, ''a''), (1, ''b'')]"
    by (auto simp: map_eq_Cons_conv)
  show ?thesis using h a b1 b(2) by simp
qed

text \<open>
  C3 (the code departs from the claim).  The claim: \<^verbatim>\<open>Send\<close> returns nil for every
  payload whose serialisation succeeds, however many pushes fail.  The code: on a Beam
  made with \<^verbatim>\<open>OptLogger(nil)\<close> whose only pear has a full queue, a payload that is
  serialised and prepared does not make \<^verbatim>\<open>Send\<close> return at all; it panics at the call
  of the nil \<^verbatim>\<open>b.logger\<close>.
\<close>

theorem Send_serialized_payload_not_returned:
  "example_marshal ''second'' = Inr ''second'' \<and>
   example_prepare 1 ''second'' = Inr (1, ''second'') \<and>
   wf_world full_world \<and> range_order [0] full_world \<and> \<not> lock (beam full_world) \<and>
   logger (beam full_world) = None \<and>
   returned (Send example_marshal example_prepare [0] ''second'' full_world) = None \<and>
   panicked (Send example_marshal example_prepare [0] ''second'' full_world)"
  by (simp add: full_world_eq Send_def example_marshal_def example_prepare_def
      Lock_def Unlock_def send_one_def deref_def chan_ready_def chan_push_def call_logger_def
      wf_world_def wf_pears_def range_order_def chan_of_def)




text \<open>
  C8 (confirmed).  Per-peer delivery order equals \<^verbatim>\<open>Send\<close>-call order.  In every
  execution of the program from a new Beam, with calls of \<^verbatim>\<open>Send\<close> and of
  \<^verbatim>\<open>ServeHTTP\<close> interleaved in any way, and for every pear \<open>p\<close>: the messages the loop of
  its handler has written to the connection are an initial part of the messages that
  calls of \<^verbatim>\<open>Send\<close> pushed on its channel, in the order of the pushes; while the handler
  has not left its loop, the messages written followed by the messages its channel holds
  are exactly the messages pushed (the channel is a queue, and the loop takes its head);
  and the messages pushed are in the order in which the calls of \<^verbatim>\<open>Send\<close> took the
  mutex, each at most once (a message is its index in the store of prepared messages).
\<close>

theorem delivery_in_Send_order:
  assumes "exec lim marshal prepare es (initial b) = Some s"
  shows "prefix (written s p) (accepted lim marshal prepare es (initial b) p) \<and>
         (live s p \<longrightarrow>
            written s p @ queue_of (world s) p = accepted lim marshal prepare es (initial b) p) \<and>
         sorted_wrt (<) (accepted lim marshal prepare es (initial b) p) \<and>
         (\<forall>m\<in>set (accepted lim marshal prepare es (initial b) p). m < length (msgs (world s)))"
proof -
  note i = initial_inv(1)[of b] and j = initial_inv(2)[of b]
  have p1: "prefix (written s p) (accepted lim marshal prepare es (initial b) p)"
    using exec_written_prefix[OF i assms, of p] unfolding initial_inv(3) by simp
  have p2: "live s p \<longrightarrow>
            written s p @ queue_of (world s) p = accepted lim marshal prepare es (initial b) p"
    using exec_flow[OF i assms, of p] unfolding initial_inv(3) by (simp add: flow_def)
  from exec_send_order[OF j assms, of p]
  have j': "inv_send s" and so: "sorted_wrt (<) (accepted lim marshal prepare es (initial b) p)"
    and a: "\<forall>m\<in>set (accepted lim marshal prepare es (initial b) p). m < next_msg s p"
    by blast+
  have p4: "\<forall>m\<in>set (accepted lim marshal prepare es (initial b) p). m < length (msgs (world s))"
    using a next_msg_le[OF j', of p] by fastforce
  show ?thesis using p1 p2 so p4 by blast
qed

theorem delivery_in_Send_order_witness:
  "exec example_limit example_marshal example_prepare example_run (initial (New () [OptBuffer 1]))
     = Some example_final \<and>
   live example_final 0 \<and>
   written example_final 0 = [0] \<and>
   queue_of (world example_final) 0 = [1] \<and>
   accepted example_limit example_marshal example_prepare example_run
     (initial (New () [OptBuffer 1])) 0 = [0, 1] \<and>
   length (msgs (world example_final)) = 3"
proof -
  have l: "live example_final 0"
    by (simp add: live_def deref_def example_final_def)
  have w: "written example_final 0 = [0]"
    by (simp add: written_def deref_def example_final_def)
  have q: "queue_of (world example_final) 0 = [1]"
    by (simp add: queue_of_def pending_def pear_chan_def deref_def example_final_def)
  have n: "length (msgs (world example_final)) = 3" by (simp add: example_final_def)
  from delivery_in_Send_order[OF example_exec, of 0] l
  have "written example_final 0 @ queue_of (world example_final) 0
          = accepted example_limit example_marshal example_prepare example_run
              (initial (New () [OptBuffer 1])) 0"
    by blast
  then show ?thesis using example_exec l w q n by simp
qed

end
